theory Spec2Isabelle
  imports Complex_Main
begin

section \<open>Common conventions\<close>

text \<open>
  The programs keep their configuration in global arrays with 1-based indices.  An array
  is modelled as a function from the index to the stored value, and an assignment
  \<^verbatim>\<open>a[i][j] = v\<close> as the function update \<open>a(i := (a i)(j := v))\<close>.  C's \<^verbatim>\<open>int\<close> is
  modelled as \<open>int\<close> for stored values and energies and as \<open>nat\<close> for the loop counters and
  grid coordinates, which never leave the range 0..201.  The energies and conflict counts
  are sums of at most a few thousand terms of size at most 5 and stay far from the 32-bit
  limit.  The one computation that can pass it is \<^verbatim>\<open>Operation\<close> of the KenKen solver,
  which adds and multiplies the digits of a region as long as the puzzle file makes it:
  there the 32-bit arithmetic is written out (\<open>wrap32\<close>).  \<^verbatim>\<open>double\<close> is modelled as \<open>real\<close>.

  The Mersenne twister is outside the modelled code.  A function that calls
  \<^verbatim>\<open>RandomInteger\<close> or \<^verbatim>\<open>MTUniform\<close> receives the values these calls return as
  arguments: a single value where exactly one call is made, a list of successive values
  where the calls sit in an accept/reject loop.  A loop that uses up the whole list
  without leaving returns \<open>None\<close>.

  Every way a program stops or leaves defined behaviour is a value of \<open>error\<close>.
\<close>

datatype error =
    TableOutOfBounds    \<comment> \<open>an acceptance table is read outside its allocation\<close>
  | ExitCalled          \<comment> \<open>the program calls \<^verbatim>\<open>Exit ()\<close>\<close>
  | DivisionByZero      \<comment> \<open>the right operand of \<^verbatim>\<open>%\<close> is 0\<close>
  | DivisionOverflow    \<comment> \<open>\<^verbatim>\<open>%\<close> with the operands \<^verbatim>\<open>INT_MIN\<close> and -1\<close>

definition update2 :: "(nat \<Rightarrow> nat \<Rightarrow> 'a) \<Rightarrow> nat \<Rightarrow> nat \<Rightarrow> 'a \<Rightarrow> (nat \<Rightarrow> nat \<Rightarrow> 'a)" where
  "update2 a i j v = a(i := (a i)(j := v))"

definition b2i :: "bool \<Rightarrow> int" where
  \<comment> \<open>the value of a C comparison used as a number\<close>
  "b2i b = (if b then 1 else 0)"

definition wrap32 :: "int \<Rightarrow> int" where
  \<comment> \<open>the 32-bit two's complement \<^verbatim>\<open>int\<close> that holds \<open>v\<close> modulo \<open>2 ^ 32\<close>\<close>
  "wrap32 v = (v + 2147483648) mod 4294967296 - 2147483648"


section \<open>KenKen solver (KenKen.cpp)\<close>

text \<open>
  Globals: \<^verbatim>\<open>x1[1..49]\<close> the digits of the 7x7 grid, \<^verbatim>\<open>I0\<close>, \<^verbatim>\<open>I1\<close> the two sites of
  the last proposal, \<^verbatim>\<open>puzzle[k][0]\<close> the size of region k and \<^verbatim>\<open>puzzle[k][1..]\<close> its
  sites (\<^verbatim>\<open>puzzle[0][0]\<close> is the number of regions), \<^verbatim>\<open>op[k]\<close> and \<^verbatim>\<open>ans[k]\<close> the
  operation and target of region k, \<^verbatim>\<open>T\<close> and \<^verbatim>\<open>prob[0..10]\<close> the temperature and the
  acceptance table.
\<close>

record kenken =
  x1 :: "nat \<Rightarrow> int"
  I0 :: nat
  I1 :: nat
  puzzle :: "nat \<Rightarrow> nat \<Rightarrow> nat"
  op :: "nat \<Rightarrow> char"
  ans :: "nat \<Rightarrow> int"
  kT :: real
  kprob :: "nat \<Rightarrow> real"

text \<open>The loop \<^verbatim>\<open>while (x1[I1] == x1[I0]) I1 = RandomInteger (1, 49);\<close> of \<^verbatim>\<open>Proposal\<close>.\<close>

fun pick_I1 :: "(nat \<Rightarrow> int) \<Rightarrow> nat \<Rightarrow> nat \<Rightarrow> nat list \<Rightarrow> nat option" where
  "pick_I1 x i0 i1 [] = (if x i1 = x i0 then None else Some i1)"
| "pick_I1 x i0 i1 (d # ds) = (if x i1 = x i0 then pick_I1 x i0 d ds else Some i1)"

definition swap_sites :: "(nat \<Rightarrow> int) \<Rightarrow> nat \<Rightarrow> nat \<Rightarrow> (nat \<Rightarrow> int)" where
  \<comment> \<open>\<^verbatim>\<open>temp = x1[I0]; x1[I0] = x1[I1]; x1[I1] = temp;\<close>\<close>
  "swap_sites x i j = (let temp = x i; x' = x(i := x j) in x'(j := temp))"

definition kk_Proposal :: "kenken \<Rightarrow> nat \<Rightarrow> nat list \<Rightarrow> kenken option" where
  "kk_Proposal st d0 ds =
     (case pick_I1 (x1 st) d0 d0 ds of
        None \<Rightarrow> None
      | Some i1 \<Rightarrow> Some (st\<lparr>I0 := d0, I1 := i1, x1 := swap_sites (x1 st) d0 i1\<rparr>))"

definition ChangeBack :: "kenken \<Rightarrow> kenken" where
  "ChangeBack st = st\<lparr>x1 := swap_sites (x1 st) (I0 st) (I1 st)\<rparr>"

text \<open>
  \<^verbatim>\<open>Operation (k)\<close>: the operation of region k applied to its digits, in 32-bit \<^verbatim>\<open>int\<close>
  arithmetic.  A sum, difference or product that leaves the range of \<^verbatim>\<open>int\<close> is
  undefined in C; the compiled program keeps the low 32 bits, and so does the model
  (\<open>wrap32\<close> after every \<^verbatim>\<open>+=\<close>, \<^verbatim>\<open>-=\<close> and \<^verbatim>\<open>*=\<close>).  An unknown operation character ends
  the program; \<^verbatim>\<open>%\<close> by a zero digit, or of \<^verbatim>\<open>INT_MIN\<close> by -1, stops it.  Where the remainder
  is 0 the quotient is exact, so C's truncating \<^verbatim>\<open>/\<close> is \<open>div\<close>.
\<close>

fun plus_loop :: "(nat \<Rightarrow> int) \<Rightarrow> (nat \<Rightarrow> nat) \<Rightarrow> nat list \<Rightarrow> int \<Rightarrow> int" where
  "plus_loop x p [] answer = answer"
| "plus_loop x p (i # is) answer = plus_loop x p is (wrap32 (answer + x (p i)))"

fun minus_loop :: "(nat \<Rightarrow> int) \<Rightarrow> (nat \<Rightarrow> nat) \<Rightarrow> nat list \<Rightarrow> int \<Rightarrow> int" where
  "minus_loop x p [] answer = answer"
| "minus_loop x p (i # is) answer =
     (let a = wrap32 (answer - x (p i)) in minus_loop x p is (if a < 0 then wrap32 (a * (-1)) else a))"

fun times_loop :: "(nat \<Rightarrow> int) \<Rightarrow> (nat \<Rightarrow> nat) \<Rightarrow> nat list \<Rightarrow> int \<Rightarrow> int" where
  "times_loop x p [] answer = answer"
| "times_loop x p (i # is) answer = times_loop x p is (wrap32 (answer * x (p i)))"

definition Operation :: "(nat \<Rightarrow> int) \<Rightarrow> (nat \<Rightarrow> nat \<Rightarrow> nat) \<Rightarrow> (nat \<Rightarrow> char) \<Rightarrow> nat \<Rightarrow> error + int" where
  "Operation x pz opc k =
     (let p = pz k in
      if opc k = CHR ''+'' then Inr (plus_loop x p [1 ..< Suc (p 0)] 0)
      else if opc k = CHR ''-'' then Inr (minus_loop x p [2 ..< Suc (p 0)] (x (p 1)))
      else if opc k = CHR ''*'' then Inr (times_loop x p [1 ..< Suc (p 0)] 1)
      else if opc k = CHR ''/'' then
        (if x (p 2) = 0 then Inl DivisionByZero
         else if x (p 1) = - 2147483648 \<and> x (p 2) = - 1 then Inl DivisionOverflow
         else if x (p 1) mod x (p 2) = 0 then Inr (x (p 1) div x (p 2))
         else if x (p 1) = 0 then Inl DivisionByZero
         else if x (p 2) = - 2147483648 \<and> x (p 1) = - 1 then Inl DivisionOverflow
         else if x (p 2) mod x (p 1) = 0 then Inr (x (p 2) div x (p 1))
         else Inr (- 1))
      else Inl ExitCalled)"

text \<open>
  \<^verbatim>\<open>Energy ()\<close>: for each column and each row the deviation of the digit counts from one
  of each of 1..7, plus one for every region that misses its target.
\<close>

definition count_dev :: "(nat \<Rightarrow> int) \<Rightarrow> nat list \<Rightarrow> int" where
  \<comment> \<open>\<^verbatim>\<open>count[x1[k]] ++\<close> over the sites of a line, then \<^verbatim>\<open>E += abs(count[i] - 1)\<close> for i = 1..7\<close>
  "count_dev x sites =
     sum_list (map (\<lambda>i. \<bar>int (length (filter (\<lambda>k. x k = i) sites)) - 1\<bar>) [1, 2, 3, 4, 5, 6, 7])"

fun region_loop ::
  "(nat \<Rightarrow> int) \<Rightarrow> (nat \<Rightarrow> nat \<Rightarrow> nat) \<Rightarrow> (nat \<Rightarrow> char) \<Rightarrow> (nat \<Rightarrow> int) \<Rightarrow> nat list \<Rightarrow> int \<Rightarrow> error + int" where
  "region_loop x pz opc an [] E = Inr E"
| "region_loop x pz opc an (k # ks) E =
     (case Operation x pz opc k of
        Inl e \<Rightarrow> Inl e
      | Inr a \<Rightarrow> region_loop x pz opc an ks (E + b2i (a \<noteq> an k)))"

definition Energy_arrays ::
  "(nat \<Rightarrow> int) \<Rightarrow> (nat \<Rightarrow> nat \<Rightarrow> nat) \<Rightarrow> (nat \<Rightarrow> char) \<Rightarrow> (nat \<Rightarrow> int) \<Rightarrow> error + int" where
  "Energy_arrays x pz opc an =
     (let cols = sum_list (map (\<lambda>c. count_dev x (map (\<lambda>r. c + 7 * (r - 1)) [1 ..< 8])) [1 ..< 8]);
          rows = sum_list (map (\<lambda>r. count_dev x (map (\<lambda>c. 7 * (r - 1) + c) [1 ..< 8])) [1 ..< 8])
      in region_loop x pz opc an [1 ..< Suc (pz 0 0)] (cols + rows))"

definition kk_Energy :: "kenken \<Rightarrow> error + int" where
  "kk_Energy st = Energy_arrays (x1 st) (puzzle st) (op st) (ans st)"

text \<open>
  One pass through the body of the \<^verbatim>\<open>while (E > 0)\<close> loop of \<^verbatim>\<open>Metropolis\<close>, for the
  current energy \<open>E\<close>.  \<open>d0\<close>, \<open>ds\<close> are the values of the calls of \<^verbatim>\<open>RandomInteger\<close> in
  \<^verbatim>\<open>Proposal\<close>, \<open>U\<close> the value of \<^verbatim>\<open>MTUniform ()\<close> should it be called.  \<^verbatim>\<open>prob\<close> has 11
  entries.  The result is the new configuration, the new energy and whether the
  transition was accepted.
\<close>

definition kk_Probabilities :: "real \<Rightarrow> nat \<Rightarrow> real" where
  \<comment> \<open>\<^verbatim>\<open>prob = calloc (11, ...)\<close>, then \<^verbatim>\<open>if (T > 0) Probabilities ()\<close>, which fills \<^verbatim>\<open>prob[1..10]\<close>\<close>
  "kk_Probabilities T d = (if 0 < T \<and> 1 \<le> d \<and> d \<le> 10 then exp (- real d / T) else 0)"

definition kk_read_prob :: "kenken \<Rightarrow> int \<Rightarrow> error + real" where
  "kk_read_prob st deltaE =
     (if 0 \<le> deltaE \<and> deltaE \<le> 10 then Inr (kprob st (nat deltaE)) else Inl TableOutOfBounds)"

definition kk_step :: "kenken \<Rightarrow> int \<Rightarrow> nat \<Rightarrow> nat list \<Rightarrow> real \<Rightarrow> (error + kenken \<times> int \<times> bool) option" where
  "kk_step st E d0 ds U =
     (case kk_Proposal st d0 ds of
        None \<Rightarrow> None
      | Some st1 \<Rightarrow>
          Some (case kk_Energy st1 of
             Inl e \<Rightarrow> Inl e
           | Inr E1 \<Rightarrow>
               (let deltaE = E1 - E in
                if deltaE \<le> 0 then Inr (st1, E + deltaE, True)
                else if kT st > 0 then
                  (case kk_read_prob st deltaE of
                     Inl e \<Rightarrow> Inl e
                   | Inr p \<Rightarrow> if U \<le> p then Inr (st1, E + deltaE, True)
                              else Inr (ChangeBack st1, E, False))
                else Inr (ChangeBack st1, E, False))))"


section \<open>Two Not Touch solver\<close>

text \<open>
  Globals: \<^verbatim>\<open>col[r][s]\<close> the column of star s (1 or 2) of row r, \<^verbatim>\<open>reg[r][c]\<close> the region
  of square (r, c), \<^verbatim>\<open>R\<close>, \<^verbatim>\<open>S\<close>, \<^verbatim>\<open>C\<close> the star moved by the last proposal and its
  previous column, \<^verbatim>\<open>T\<close> and \<^verbatim>\<open>P[0..24]\<close> the temperature and the acceptance table.
  Columns and regions are numbers, used as indices of the count arrays.
\<close>

record tnt =
  col :: "nat \<Rightarrow> nat \<Rightarrow> nat"
  reg :: "nat \<Rightarrow> nat \<Rightarrow> nat"
  tR :: nat
  tS :: nat
  tC :: nat
  tT :: real
  tP :: "nat \<Rightarrow> real"

text \<open>
  The loop of \<^verbatim>\<open>Proposal\<close> that draws a new column until it differs from \<^verbatim>\<open>C\<close> and
  from the column \<^verbatim>\<open>c\<close> of the other star of the row.
\<close>

fun pick_col :: "nat \<Rightarrow> nat \<Rightarrow> nat list \<Rightarrow> nat option" where
  "pick_col C c [] = None"
| "pick_col C c (d # ds) = (if d \<noteq> C \<and> d \<noteq> c then Some d else pick_col C c ds)"

definition tnt_Proposal :: "tnt \<Rightarrow> nat \<Rightarrow> nat \<Rightarrow> nat list \<Rightarrow> tnt option" where
  "tnt_Proposal st r s ds =
     (let C = col st r s; c = col st r (3 - s) in
      case pick_col C c ds of
        None \<Rightarrow> None
      | Some d \<Rightarrow> Some (st\<lparr>tR := r, tS := s, tC := C, col := update2 (col st) r s d\<rparr>))"

definition absdiff :: "nat \<Rightarrow> nat \<Rightarrow> int" where
  "absdiff a b = \<bar>int a - int b\<bar>"

definition Energy_stars :: "(nat \<Rightarrow> nat \<Rightarrow> nat) \<Rightarrow> (nat \<Rightarrow> nat \<Rightarrow> nat) \<Rightarrow> int" where
  "Energy_stars cl rg =
     (let stars = concat (map (\<lambda>r. map (\<lambda>s. (r, s)) [1, 2]) [1 ..< 11]);
          colcount = (\<lambda>c. int (length (filter (\<lambda>(r, s). cl r s = c) stars)));
          regcount = (\<lambda>g. int (length (filter (\<lambda>(r, s). rg r (cl r s) = g) stars)))
      in sum_list (map (\<lambda>c. \<bar>regcount c - 2\<bar> + \<bar>colcount c - 2\<bar>) [1 ..< 11])
       + sum_list (map (\<lambda>r. b2i (absdiff (cl r 1) (cl r 2) = 1)) [1 ..< 11])
       + sum_list (map (\<lambda>r. b2i (absdiff (cl r 1) (cl (r + 1) 1) \<le> 1)
                           + b2i (absdiff (cl r 1) (cl (r + 1) 2) \<le> 1)
                           + b2i (absdiff (cl r 2) (cl (r + 1) 1) \<le> 1)
                           + b2i (absdiff (cl r 2) (cl (r + 1) 2) \<le> 1)) [1 ..< 10]))"

definition tnt_Energy :: "tnt \<Rightarrow> int" where
  "tnt_Energy st = Energy_stars (col st) (reg st)"

definition tnt_Probabilities :: "real \<Rightarrow> nat \<Rightarrow> real" where
  \<comment> \<open>\<^verbatim>\<open>P = calloc (25, ...)\<close>, then \<^verbatim>\<open>if (T > 0.0)\<close> the loop that fills \<^verbatim>\<open>P[1..24]\<close>\<close>
  "tnt_Probabilities T d = (if 0 < T \<and> 1 \<le> d \<and> d < 25 then exp (- real d / T) else 0)"

definition tnt_read_P :: "tnt \<Rightarrow> int \<Rightarrow> error + real" where
  "tnt_read_P st deltaE =
     (if 0 \<le> deltaE \<and> deltaE \<le> 24 then Inr (tP st (nat deltaE)) else Inl TableOutOfBounds)"

definition tnt_undo :: "tnt \<Rightarrow> tnt" where
  \<comment> \<open>\<^verbatim>\<open>col[R][S] = C;\<close>\<close>
  "tnt_undo st = st\<lparr>col := update2 (col st) (tR st) (tS st) (tC st)\<rparr>"

definition tnt_step :: "tnt \<Rightarrow> int \<Rightarrow> nat \<Rightarrow> nat \<Rightarrow> nat list \<Rightarrow> real \<Rightarrow> (error + tnt \<times> int \<times> bool) option" where
  "tnt_step st E r s ds U =
     (case tnt_Proposal st r s ds of
        None \<Rightarrow> None
      | Some st1 \<Rightarrow>
          Some (let deltaE = tnt_Energy st1 - E in
                if deltaE \<le> 0 then Inr (st1, E + deltaE, True)
                else if tT st > 0 then
                  (case tnt_read_P st deltaE of
                     Inl e \<Rightarrow> Inl e
                   | Inr p \<Rightarrow> if U \<le> p then Inr (st1, E + deltaE, True)
                              else Inr (tnt_undo st1, E, False))
                else Inr (tnt_undo st1, E, False)))"


section \<open>Sudoku solver\<close>

text \<open>
  Globals: \<^verbatim>\<open>x[i][j]\<close> the digit in row i, column j; \<^verbatim>\<open>clue[i][j]\<close> whether that cell
  is a clue; \<^verbatim>\<open>T\<close> and \<^verbatim>\<open>prob[0..20]\<close>.  \<^verbatim>\<open>Conflicts (r0, c0, d)\<close> counts the cells
  in the row, the column and the 3x3 block of (r0, c0) that hold the digit d, a conflict
  that involves a clue counting 5.
\<close>

definition Conflicts :: "(nat \<Rightarrow> nat \<Rightarrow> int) \<Rightarrow> (nat \<Rightarrow> nat \<Rightarrow> bool) \<Rightarrow> nat \<Rightarrow> nat \<Rightarrow> int \<Rightarrow> int" where
  "Conflicts x clue r0 c0 d =
     (let rowcol = sum_list (map (\<lambda>k.
              (if k \<noteq> c0 then b2i (x r0 k = d) * (if clue r0 c0 \<or> clue r0 k then 5 else 1) else 0)
            + (if k \<noteq> r0 then b2i (x k c0 = d) * (if clue r0 c0 \<or> clue k c0 then 5 else 1) else 0))
            [1 ..< 10]);
          lower = 1 + 3 * ((c0 - 1) div 3);
          left = 1 + 3 * ((r0 - 1) div 3);
          block = sum_list (map (\<lambda>r. sum_list (map (\<lambda>c.
              if r \<noteq> r0 \<and> c \<noteq> c0
              then b2i (x r c = d) * (if clue r0 c0 \<or> clue r c then 5 else 1) else 0)
            [lower ..< lower + 3])) [left ..< left + 3])
      in rowcol + block)"

definition Energy :: "(nat \<Rightarrow> nat \<Rightarrow> int) \<Rightarrow> (nat \<Rightarrow> nat \<Rightarrow> bool) \<Rightarrow> int" where
  \<comment> \<open>the sum is never negative, so C's truncating \<^verbatim>\<open>E /= 2\<close> is \<open>div\<close>\<close>
  "Energy x clue =
     sum_list (map (\<lambda>i. sum_list (map (\<lambda>j. Conflicts x clue i j (x i j)) [1 ..< 10])) [1 ..< 10]) div 2"

text \<open>
  \<^verbatim>\<open>Proposal ()\<close>: draw cells until one is not a clue, then draw digits until one differs
  from the digit in that cell.
\<close>

fun pick_cell :: "(nat \<Rightarrow> nat \<Rightarrow> bool) \<Rightarrow> (nat \<times> nat) list \<Rightarrow> (nat \<times> nat) option" where
  "pick_cell clue [] = None"
| "pick_cell clue ((i, j) # ds) = (if \<not> clue i j then Some (i, j) else pick_cell clue ds)"

fun pick_digit :: "int \<Rightarrow> int list \<Rightarrow> int option" where
  "pick_digit cur [] = None"
| "pick_digit cur (d # ds) = (if d \<noteq> cur then Some d else pick_digit cur ds)"

definition sud_Proposal ::
  "(nat \<Rightarrow> nat \<Rightarrow> int) \<Rightarrow> (nat \<Rightarrow> nat \<Rightarrow> bool) \<Rightarrow> (nat \<times> nat) list \<Rightarrow> int list \<Rightarrow> (nat \<times> nat \<times> int) option" where
  "sud_Proposal x clue cells digits =
     (case pick_cell clue cells of
        None \<Rightarrow> None
      | Some (i0, j0) \<Rightarrow>
          (case pick_digit (x i0 j0) digits of None \<Rightarrow> None | Some x0 \<Rightarrow> Some (i0, j0, x0)))"

definition sud_Probabilities :: "real \<Rightarrow> nat \<Rightarrow> real" where
  \<comment> \<open>\<^verbatim>\<open>prob = calloc (21, ...)\<close>, then \<^verbatim>\<open>if (T > 0) Probabilities ()\<close>, which fills \<^verbatim>\<open>prob[1..20]\<close>;
      \<^verbatim>\<open>prob[0]\<close> stays 0.0 and there is no entry above 20 (the 0 given there is never read)\<close>
  "sud_Probabilities T d = (if 0 < T \<and> 1 \<le> d \<and> d \<le> 20 then exp (- real d / T) else 0)"

definition sud_read_prob :: "(nat \<Rightarrow> real) \<Rightarrow> int \<Rightarrow> error + real" where
  \<comment> \<open>\<^verbatim>\<open>prob = (double *) calloc (21, sizeof (double))\<close>\<close>
  "sud_read_prob prob deltaE =
     (if 0 \<le> deltaE \<and> deltaE \<le> 20 then Inr (prob (nat deltaE)) else Inl TableOutOfBounds)"

text \<open>
  One pass through the body of the \<^verbatim>\<open>while (E > 0)\<close> loop of \<^verbatim>\<open>Metropolis\<close>.  The
  proposal is applied to \<^verbatim>\<open>x\<close> only when it is accepted, so nothing is undone.
\<close>

definition sud_deltaE :: "(nat \<Rightarrow> nat \<Rightarrow> int) \<Rightarrow> (nat \<Rightarrow> nat \<Rightarrow> bool) \<Rightarrow> nat \<Rightarrow> nat \<Rightarrow> int \<Rightarrow> int" where
  "sud_deltaE x clue i0 j0 x0 = Conflicts x clue i0 j0 x0 - Conflicts x clue i0 j0 (x i0 j0)"

definition sud_step ::
  "(nat \<Rightarrow> nat \<Rightarrow> int) \<Rightarrow> (nat \<Rightarrow> nat \<Rightarrow> bool) \<Rightarrow> real \<Rightarrow> (nat \<Rightarrow> real) \<Rightarrow> int
     \<Rightarrow> (nat \<times> nat) list \<Rightarrow> int list \<Rightarrow> real \<Rightarrow> (error + (nat \<Rightarrow> nat \<Rightarrow> int) \<times> int \<times> bool) option" where
  "sud_step x clue T prob E cells digits U =
     (case sud_Proposal x clue cells digits of
        None \<Rightarrow> None
      | Some (i0, j0, x0) \<Rightarrow>
          Some (let deltaE = sud_deltaE x clue i0 j0 x0 in
                if deltaE \<le> 0 then Inr (update2 x i0 j0 x0, E + deltaE, True)
                else if T > 0 then
                  (case sud_read_prob prob deltaE of
                     Inl e \<Rightarrow> Inl e
                   | Inr p \<Rightarrow> if U \<le> p then Inr (update2 x i0 j0 x0, E + deltaE, True)
                              else Inr (x, E, False))
                else Inr (x, E, False)))"


section \<open>Magic square generator\<close>

text \<open>
  Globals: the order \<^verbatim>\<open>N\<close>, the square \<^verbatim>\<open>S[1..N][1..N]\<close>, \<^verbatim>\<open>T\<close> and \<^verbatim>\<open>P[0..100]\<close>.
  The acceptance test reads \<^verbatim>\<open>P\<close> behind the guard \<^verbatim>\<open>DeltaE < 100\<close>.
\<close>

definition ms_Energy :: "nat \<Rightarrow> (nat \<Rightarrow> nat \<Rightarrow> int) \<Rightarrow> int" where
  "ms_Energy N S =
     (let sum = (int N * (int N * int N + 1)) div 2 in
      sum_list (map (\<lambda>i. \<bar>sum_list (map (\<lambda>j. S i j) [1 ..< Suc N]) - sum\<bar>
                        + \<bar>sum_list (map (\<lambda>j. S j i) [1 ..< Suc N]) - sum\<bar>) [1 ..< Suc N])
      + \<bar>sum_list (map (\<lambda>i. S i i) [1 ..< Suc N]) - sum\<bar>
      + \<bar>sum_list (map (\<lambda>i. S i (N + 1 - i)) [1 ..< Suc N]) - sum\<bar>)"

fun pick_second :: "nat \<Rightarrow> nat \<Rightarrow> nat \<Rightarrow> nat \<Rightarrow> (nat \<times> nat) list \<Rightarrow> (nat \<times> nat) option" where
  \<comment> \<open>\<^verbatim>\<open>while (i1 == i0 && j1 == j0) { i1 = RandomInteger (1, N); j1 = RandomInteger (1, N); }\<close>\<close>
  "pick_second i0 j0 i1 j1 [] = (if i1 = i0 \<and> j1 = j0 then None else Some (i1, j1))"
| "pick_second i0 j0 i1 j1 ((a, b) # ds) =
     (if i1 = i0 \<and> j1 = j0 then pick_second i0 j0 a b ds else Some (i1, j1))"

definition ms_swap :: "(nat \<Rightarrow> nat \<Rightarrow> int) \<Rightarrow> nat \<Rightarrow> nat \<Rightarrow> nat \<Rightarrow> nat \<Rightarrow> (nat \<Rightarrow> nat \<Rightarrow> int)" where
  "ms_swap S i0 j0 i1 j1 =
     (let temp = S i0 j0; S' = update2 S i0 j0 (S i1 j1) in update2 S' i1 j1 temp)"

definition ms_accept_prob :: "(nat \<Rightarrow> real) \<Rightarrow> int \<Rightarrow> error + real" where
  \<comment> \<open>\<^verbatim>\<open>p = (DeltaE < 100 ? P[DeltaE] : 0.0)\<close> with \<^verbatim>\<open>P = calloc (101, ...)\<close>\<close>
  "ms_accept_prob P DeltaE =
     (if DeltaE < 100
      then (if 0 \<le> DeltaE \<and> DeltaE \<le> 100 then Inr (P (nat DeltaE)) else Inl TableOutOfBounds)
      else Inr 0)"

definition ms_step ::
  "nat \<Rightarrow> (nat \<Rightarrow> nat \<Rightarrow> int) \<Rightarrow> real \<Rightarrow> (nat \<Rightarrow> real) \<Rightarrow> int
     \<Rightarrow> nat \<Rightarrow> nat \<Rightarrow> (nat \<times> nat) list \<Rightarrow> real \<Rightarrow> (error + (nat \<Rightarrow> nat \<Rightarrow> int) \<times> int \<times> bool) option" where
  "ms_step N S T P E i0 j0 ds U =
     (case pick_second i0 j0 i0 j0 ds of
        None \<Rightarrow> None
      | Some (i1, j1) \<Rightarrow>
          Some (let S1 = ms_swap S i0 j0 i1 j1; DeltaE = ms_Energy N S1 - E in
                if DeltaE \<le> 0 then Inr (S1, E + DeltaE, True)
                else if T > 0 then
                  (case ms_accept_prob P DeltaE of
                     Inl e \<Rightarrow> Inl e
                   | Inr p \<Rightarrow> if U \<le> p then Inr (S1, E + DeltaE, True)
                              else Inr (ms_swap S1 i0 j0 i1 j1, E, False))
                else Inr (ms_swap S1 i0 j0 i1 j1, E, False)))"


section \<open>Image reconstruction (ImageReconstruction.cpp)\<close>

text \<open>
  Globals: \<^verbatim>\<open>x[0..201][0..201]\<close> the image (1 black, 0 white; the pixels are those with
  both indices in 1..200, the frame around them is allocated with \<^verbatim>\<open>calloc\<close> and never
  written), \<^verbatim>\<open>d\<close> the degraded image and \<^verbatim>\<open>lambda\<close>.  \<^verbatim>\<open>Energy ()\<close> adds, over the pixels,
  half the number \<^verbatim>\<open>b\<close> of the four neighbours that differ from the pixel, and the number
  of pixels that differ from \<^verbatim>\<open>d\<close>.  \<^verbatim>\<open>DeltaEnergy (i0, j0)\<close> is the change of energy that
  \<^verbatim>\<open>Metropolis\<close> adds to \<^verbatim>\<open>E\<close> when it flips the pixel (\<^verbatim>\<open>x[i0][j0] = 1 - x[i0][j0]\<close>).
  The sums \<^verbatim>\<open>B\<close> and \<^verbatim>\<open>D\<close> are multiples of one half and exact in \<^verbatim>\<open>double\<close>.
\<close>

definition img_segments :: "(nat \<Rightarrow> nat \<Rightarrow> int) \<Rightarrow> nat \<Rightarrow> nat \<Rightarrow> int" where
  "img_segments x i j =
     b2i (x i (j + 1) \<noteq> x i j) + b2i (x (i + 1) j \<noteq> x i j)
     + b2i (x i (j - 1) \<noteq> x i j) + b2i (x (i - 1) j \<noteq> x i j)"

definition img_Energy :: "(nat \<Rightarrow> nat \<Rightarrow> int) \<Rightarrow> (nat \<Rightarrow> nat \<Rightarrow> int) \<Rightarrow> real \<Rightarrow> real" where
  "img_Energy x d lam =
     (let B = sum_list (map (\<lambda>i. sum_list (map (\<lambda>j. (1 / 2) * real_of_int (img_segments x i j))
                                  [1 ..< 201])) [1 ..< 201]);
          D = sum_list (map (\<lambda>i. sum_list (map (\<lambda>j. real_of_int (b2i (x i j \<noteq> d i j)))
                                  [1 ..< 201])) [1 ..< 201])
      in lam * B + (1 - lam) * D)"

definition img_DeltaEnergy :: "(nat \<Rightarrow> nat \<Rightarrow> int) \<Rightarrow> (nat \<Rightarrow> nat \<Rightarrow> int) \<Rightarrow> real \<Rightarrow> nat \<Rightarrow> nat \<Rightarrow> real" where
  "img_DeltaEnergy x d lam i0 j0 =
     (let DeltaD = (if x i0 j0 = d i0 j0 then 1 else - 1);
          b = real_of_int (img_segments x i0 j0);
          DeltaB = 4 - 2 * b
      in lam * DeltaB + (1 - lam) * DeltaD)"

definition img_flip :: "(nat \<Rightarrow> nat \<Rightarrow> int) \<Rightarrow> nat \<Rightarrow> nat \<Rightarrow> (nat \<Rightarrow> nat \<Rightarrow> int)" where
  "img_flip x i0 j0 = update2 x i0 j0 (1 - x i0 j0)"


section \<open>Travelling salesman: the segment to reverse\<close>

text \<open>
  \<^verbatim>\<open>Proposal ()\<close> draws \<^verbatim>\<open>i0\<close> and \<^verbatim>\<open>j0\<close> from 2..K, orders them, and repeats until
  \<^verbatim>\<open>0 < j0 - i0 < K - 2\<close>.  The argument is the list of the successive pairs drawn.
\<close>

fun tsp_Proposal :: "int \<Rightarrow> (int \<times> int) list \<Rightarrow> (int \<times> int) option" where
  "tsp_Proposal K [] = None"
| "tsp_Proposal K ((a, b) # ds) =
     (let i0 = (if b < a then b else a); j0 = (if b < a then a else b); k = j0 - i0 in
      if 0 < k \<and> k < K - 2 then Some (i0, j0) else tsp_Proposal K ds)"

definition acceptable :: "int \<Rightarrow> int \<times> int \<Rightarrow> bool" where
  "acceptable K d = (fst d \<noteq> snd d \<and> \<bar>fst d - snd d\<bar> < K - 2)"


section \<open>Sudoku puzzle maker: the clue flags\<close>

text \<open>
  \<^verbatim>\<open>C[x][y]\<close> is 1 when site (x, y) is a clue and 0 otherwise.  \<^verbatim>\<open>Flip (x0, y0)\<close> flips
  the flag of the site and of its reflection about (5, 5) and returns the change in the
  number of clues.
\<close>

definition Flip :: "(nat \<Rightarrow> nat \<Rightarrow> int) \<Rightarrow> nat \<Rightarrow> nat \<Rightarrow> (nat \<Rightarrow> nat \<Rightarrow> int) \<times> int" where
  "Flip C x0 y0 =
     (let C1 = update2 C x0 y0 (1 - C x0 y0);
          both55 = (x0 = 5 \<and> y0 = 5);
          C2 = (if \<not> both55
                then (let x1 = 10 - x0; y1 = 10 - y0 in update2 C1 x1 y1 (1 - C1 x1 y1))
                else C1);
          DeltaClues = (if C2 x0 y0 = 1 then 1 else - 1) * (if both55 then 1 else 2)
      in (C2, DeltaClues))"

definition all_clues :: "nat \<Rightarrow> nat \<Rightarrow> int" where
  \<comment> \<open>the initial configuration of \<^verbatim>\<open>Metropolis2\<close>: \<^verbatim>\<open>C[x][y] = 1\<close> for all sites\<close>
  "all_clues = (\<lambda>x y. 1)"

definition flips :: "(nat \<Rightarrow> nat \<Rightarrow> int) \<Rightarrow> (nat \<times> nat) list \<Rightarrow> (nat \<Rightarrow> nat \<Rightarrow> int)" where
  \<comment> \<open>the flag grid after a sequence of calls of \<^verbatim>\<open>Flip\<close>\<close>
  "flips C ps = foldl (\<lambda>C' (x, y). fst (Flip C' x y)) C ps"

definition symmetric :: "(nat \<Rightarrow> nat \<Rightarrow> int) \<Rightarrow> bool" where
  "symmetric C = (\<forall>x \<in> {1 .. 9}. \<forall>y \<in> {1 .. 9}. C x y = C (10 - x) (10 - y))"


section \<open>Sudoku puzzle maker: the uniqueness test\<close>

text \<open>
  Globals of the reduction stage: the solution \<^verbatim>\<open>s[x][y]\<close>; the trial solution, held in
  the arrays \<^verbatim>\<open>r[i]\<close>, \<^verbatim>\<open>c[i]\<close> (the site of entry i), \<^verbatim>\<open>n[i][1..]\<close> (the digits that were
  consistent at that site when the entry was made) and \<^verbatim>\<open>m[i]\<close> (the index in \<^verbatim>\<open>n[i]\<close> of
  the digit now tried, so that \<^verbatim>\<open>n[i][m[i]]\<close> is the digit of entry i); \<^verbatim>\<open>Gtilde[x][y]\<close>,
  whether site (x, y) has an entry; \<^verbatim>\<open>istar\<close>, the number of entries; \<^verbatim>\<open>Csize\<close>, the
  number of clues, which are the entries 1..Csize.
\<close>

record ostate =
  r_arr :: "nat \<Rightarrow> nat"
  c_arr :: "nat \<Rightarrow> nat"
  m_arr :: "nat \<Rightarrow> nat"
  n_arr :: "nat \<Rightarrow> nat \<Rightarrow> int"
  Gtilde :: "nat \<Rightarrow> nat \<Rightarrow> bool"
  istar :: nat
  Csize :: nat

definition grid_list :: "(nat \<times> nat) list" where
  \<comment> \<open>the order of \<^verbatim>\<open>for (x = 1; x <= 9; x++) for (y = 1; y <= 9; y++)\<close>\<close>
  "grid_list = concat (map (\<lambda>x. map (\<lambda>y. (x, y)) [1 ..< 10]) [1 ..< 10])"

fun gs_loop :: "(nat \<Rightarrow> nat \<Rightarrow> int) \<Rightarrow> (nat \<Rightarrow> nat \<Rightarrow> int) \<Rightarrow> (nat \<times> nat) list \<Rightarrow> nat \<Rightarrow> ostate \<Rightarrow> nat \<times> ostate" where
  "gs_loop C s [] i st = (i, st)"
| "gs_loop C s ((x, y) # ps) i st =
     (if C x y \<noteq> 0
      then gs_loop C s ps (i + 1)
             (st\<lparr>r_arr := (r_arr st)(i + 1 := x), c_arr := (c_arr st)(i + 1 := y),
                 m_arr := (m_arr st)(i + 1 := 1), n_arr := update2 (n_arr st) (i + 1) 1 (s x y),
                 Gtilde := update2 (Gtilde st) x y True\<rparr>)
      else gs_loop C s ps i (st\<lparr>Gtilde := update2 (Gtilde st) x y False\<rparr>))"

definition GettingStarted :: "(nat \<Rightarrow> nat \<Rightarrow> int) \<Rightarrow> (nat \<Rightarrow> nat \<Rightarrow> int) \<Rightarrow> ostate \<Rightarrow> ostate" where
  "GettingStarted C s st =
     (case gs_loop C s grid_list 0 st of (i, st') \<Rightarrow> st'\<lparr>Csize := i, istar := i\<rparr>)"

definition Consistent :: "ostate \<Rightarrow> nat \<Rightarrow> nat \<Rightarrow> int \<Rightarrow> nat \<Rightarrow> bool" where
  \<comment> \<open>no entry i \<le> k with the digit v lies in the row, the column or the block of (x, y)\<close>
  "Consistent st x y v k =
     (let b0 = (x - 1) div 3 + 3 * ((y - 1) div 3) in
      list_all (\<lambda>i. \<not> (v = n_arr st i (m_arr st i) \<and>
                        (r_arr st i = x \<or> c_arr st i = y \<or>
                         (r_arr st i - 1) div 3 + 3 * ((c_arr st i - 1) div 3) = b0)))
               [1 ..< Suc k])"

definition count_consistent :: "ostate \<Rightarrow> nat \<Rightarrow> nat \<Rightarrow> nat" where
  \<comment> \<open>\<^verbatim>\<open>m0\<close>: how many digits v = 1..9 are consistent at (x, y) with the entries through istar\<close>
  "count_consistent st x y = length (filter (\<lambda>v. Consistent st x y v (istar st)) [1 .. 9])"

text \<open>
  The search of \<^verbatim>\<open>Advance\<close> for the free site with the fewest consistent digits.  The
  accumulator is (m', r', c'); \<open>None\<close> stands for the \<^verbatim>\<open>return 2\<close> inside the loop.
\<close>

fun scan :: "ostate \<Rightarrow> (nat \<times> nat) list \<Rightarrow> nat \<times> nat \<times> nat \<Rightarrow> (nat \<times> nat \<times> nat) option" where
  "scan st [] acc = Some acc"
| "scan st ((x, y) # ps) (mprime, rprime, cprime) =
     (if \<not> Gtilde st x y
      then (let m0 = count_consistent st x y;
                acc = (if m0 < mprime then (m0, x, y) else (mprime, rprime, cprime))
            in if fst acc = 0 then None else scan st ps acc)
      else scan st ps (mprime, rprime, cprime))"

text \<open>
  The loop of \<^verbatim>\<open>Advance\<close> that records in \<^verbatim>\<open>n[istar][1..]\<close> the digits consistent at
  (r', c') with the entries through istar - 1.
\<close>

fun fill_loop :: "nat \<Rightarrow> nat \<Rightarrow> int list \<Rightarrow> nat \<Rightarrow> ostate \<Rightarrow> ostate" where
  "fill_loop rprime cprime [] j st = st"
| "fill_loop rprime cprime (v # vs) j st =
     (if Consistent st rprime cprime v (istar st - 1)
      then fill_loop rprime cprime vs (j + 1) (st\<lparr>n_arr := update2 (n_arr st) (istar st) (j + 1) v\<rparr>)
      else fill_loop rprime cprime vs j st)"

definition Advance :: "ostate \<Rightarrow> nat \<times> ostate" where
  \<comment> \<open>\<^verbatim>\<open>rprime\<close>, \<^verbatim>\<open>cprime\<close> are not initialised in the source; they are set by the loop
      whenever a site is free\<close>
  "Advance st =
     (if istar st = 81 then (0, st)
      else case scan st grid_list (10, 0, 0) of
             None \<Rightarrow> (2, st)
           | Some (mprime, rprime, cprime) \<Rightarrow>
               (let st1 = st\<lparr>istar := istar st + 1\<rparr>;
                    st2 = fill_loop rprime cprime [1 .. 9] 0 st1
                in (1, st2\<lparr>r_arr := (r_arr st2)(istar st2 := rprime),
                           c_arr := (c_arr st2)(istar st2 := cprime),
                           m_arr := (m_arr st2)(istar st2 := mprime),
                           Gtilde := update2 (Gtilde st2) rprime cprime True\<rparr>)))"

definition Retreat :: "ostate \<Rightarrow> nat \<times> ostate" where
  "Retreat st =
     (if istar st = Csize st then (0, st)
      else if m_arr st (istar st) > 1
      then (1, st\<lparr>m_arr := (m_arr st)(istar st := m_arr st (istar st) - 1)\<rparr>)
      else (2, st\<lparr>Gtilde := update2 (Gtilde st) (r_arr st (istar st)) (c_arr st (istar st)) False,
                  istar := istar st - 1\<rparr>))"

text \<open>
  The loop \<^verbatim>\<open>while (status != 0) { if (status == 1) status = Advance (); else status =
  Retreat (); }\<close>.  It is not known beforehand to end, so its result is an option.
\<close>

partial_function (option) search :: "nat \<Rightarrow> ostate \<Rightarrow> ostate option" where
  "search status st =
     (if status = 0 then Some st
      else if status = 1 then search (fst (Advance st)) (snd (Advance st))
      else search (fst (Retreat st)) (snd (Retreat st)))"

text \<open>
  \<^verbatim>\<open>Unique ()\<close>: 1 if the solution of the puzzle with the clues \<^verbatim>\<open>C\<close> is found unique, 0 if
  not.  When the first search ends without 81 entries the program prints a message and
  calls \<^verbatim>\<open>Exit ()\<close>.  The state of the arrays is returned with the answer.
\<close>

definition Unique :: "(nat \<Rightarrow> nat \<Rightarrow> int) \<Rightarrow> (nat \<Rightarrow> nat \<Rightarrow> int) \<Rightarrow> ostate \<Rightarrow> ((error + int) \<times> ostate) option" where
  "Unique C s st =
     (case search 1 (GettingStarted C s st) of
        None \<Rightarrow> None
      | Some st1 \<Rightarrow>
          if istar st1 \<noteq> 81 then Some (Inl ExitCalled, st1)
          else (case search 2 st1 of
                  None \<Rightarrow> None
                | Some st2 \<Rightarrow> Some (Inr (if istar st2 = 81 then 0 else 1), st2)))"

text \<open>
  The pairs of a status and a state with which the two loops of \<^verbatim>\<open>Unique\<close> call
  \<^verbatim>\<open>Advance\<close> (status 1) and \<^verbatim>\<open>Retreat\<close> (status 2) or stop (status 0), for the clue flags
  \<open>C\<close>, the solution \<open>s\<close> and the arrays \<open>st0\<close> at the call: the first loop starts in the
  Advance state on the trail of the clues, every call gives the next pair, and the second
  loop starts with a Retreat where the first loop has stopped on a full trail.
\<close>

inductive reach :: "(nat \<Rightarrow> nat \<Rightarrow> int) \<Rightarrow> (nat \<Rightarrow> nat \<Rightarrow> int) \<Rightarrow> ostate \<Rightarrow> nat \<Rightarrow> ostate \<Rightarrow> bool"
  for C s st0 where
  start: "reach C s st0 1 (GettingStarted C s st0)"
| advance: "reach C s st0 1 st \<Longrightarrow> reach C s st0 (fst (Advance st)) (snd (Advance st))"
| retreat: "reach C s st0 2 st \<Longrightarrow> reach C s st0 (fst (Retreat st)) (snd (Retreat st))"
| second: "reach C s st0 0 st \<Longrightarrow> istar st = 81 \<Longrightarrow> reach C s st0 2 st"

text \<open>
  One pass through the body of the loop \<^verbatim>\<open>while (E > d)\<close> of \<^verbatim>\<open>Metropolis2\<close>: \<open>x\<close>, \<open>y\<close>
  are the site drawn, \<open>U\<close> the value of \<^verbatim>\<open>MTUniform ()\<close> should it be called.  \<^verbatim>\<open>Flip\<close>
  returns 1 or 2 when it does not reduce the clues, and \<^verbatim>\<open>p[1] = 0.1581\<close>,
  \<^verbatim>\<open>p[2] = .0250\<close>.
\<close>

definition mp2_p :: "int \<Rightarrow> real" where
  "mp2_p DeltaClues = (if DeltaClues = 1 then 1581 / 10000 else 250 / 10000)"

definition Metropolis2_step ::
  "(nat \<Rightarrow> nat \<Rightarrow> int) \<Rightarrow> (nat \<Rightarrow> nat \<Rightarrow> int) \<Rightarrow> int \<Rightarrow> ostate \<Rightarrow> nat \<Rightarrow> nat \<Rightarrow> real
     \<Rightarrow> (error + (nat \<Rightarrow> nat \<Rightarrow> int) \<times> int \<times> ostate) option" where
  "Metropolis2_step s C E st x y U =
     (case Flip C x y of (C1, DeltaClues) \<Rightarrow>
        if DeltaClues < 0 then
          (case Unique C1 s st of
             None \<Rightarrow> None
           | Some (Inl e, st') \<Rightarrow> Some (Inl e)
           | Some (Inr u, st') \<Rightarrow>
               Some (Inr (if u \<noteq> 0 then (C1, E + DeltaClues, st')
                          else (fst (Flip C1 x y), E, st'))))
        else Some (Inr (if U \<le> mp2_p DeltaClues then (C1, E + DeltaClues, st)
                        else (fst (Flip C1 x y), E, st))))"

section \<open>The conflict graph of the Sudoku grid\<close>

text \<open>
  For the proofs: the 81 cells, the relation between two different cells that share a
  row, a column or a 3x3 block, the weight of a conflict between two sites, and the
  weighted number of sites related to \<open>p\<close> that hold the digit \<open>d\<close> in the grid \<open>v\<close>.
\<close>

definition sites :: "(nat \<times> nat) set" where
  "sites = {1 ..< 10} \<times> {1 ..< 10}"

definition adj :: "nat \<times> nat \<Rightarrow> nat \<times> nat \<Rightarrow> bool" where
  "adj p q = (fst q = fst p \<and> snd q \<noteq> snd p \<or> snd q = snd p \<and> fst q \<noteq> fst p \<or>
              (fst q - 1) div 3 = (fst p - 1) div 3 \<and> (snd q - 1) div 3 = (snd p - 1) div 3 \<and>
              fst q \<noteq> fst p \<and> snd q \<noteq> snd p)"

definition wt :: "(nat \<Rightarrow> nat \<Rightarrow> bool) \<Rightarrow> nat \<times> nat \<Rightarrow> nat \<times> nat \<Rightarrow> int" where
  "wt clue p q = (if clue (fst p) (snd p) \<or> clue (fst q) (snd q) then 5 else 1)"

definition cnt :: "(nat \<Rightarrow> nat \<Rightarrow> bool) \<Rightarrow> (nat \<times> nat \<Rightarrow> int) \<Rightarrow> nat \<times> nat \<Rightarrow> int \<Rightarrow> int" where
  "cnt clue v p d = (\<Sum>q \<in> sites. if adj p q \<and> v q = d then wt clue p q else 0)"

text \<open>
  What the uniqueness test is to decide: a completion of the clues is a grid with digits
  1..9 that agrees with the solution \<open>s\<close> on the clue sites and in which no two different
  cells of a row, a column or a 3x3 block hold the same digit.
\<close>

definition valid_grid :: "(nat \<Rightarrow> nat \<Rightarrow> int) \<Rightarrow> bool" where
  "valid_grid g =
     ((\<forall>p \<in> sites. 1 \<le> g (fst p) (snd p) \<and> g (fst p) (snd p) \<le> 9) \<and>
      (\<forall>p \<in> sites. \<forall>q \<in> sites. adj p q \<longrightarrow> g (fst p) (snd p) \<noteq> g (fst q) (snd q)))"

definition completion :: "(nat \<Rightarrow> nat \<Rightarrow> int) \<Rightarrow> (nat \<Rightarrow> nat \<Rightarrow> int) \<Rightarrow> (nat \<Rightarrow> nat \<Rightarrow> int) \<Rightarrow> bool" where
  "completion C s g =
     (valid_grid g \<and> (\<forall>p \<in> sites. C (fst p) (snd p) \<noteq> 0 \<longrightarrow> g (fst p) (snd p) = s (fst p) (snd p)))"

definition one_completion :: "(nat \<Rightarrow> nat \<Rightarrow> int) \<Rightarrow> (nat \<Rightarrow> nat \<Rightarrow> int) \<Rightarrow> bool" where
  \<comment> \<open>exactly one completion, as a filling of the 81 cells\<close>
  "one_completion C s =
     ((\<exists>g. completion C s g) \<and>
      (\<forall>g g'. completion C s g \<and> completion C s g' \<longrightarrow> (\<forall>p \<in> sites. g (fst p) (snd p) = g' (fst p) (snd p))))"


section \<open>The state of the search: notions for the proofs\<close>

text \<open>
  The cell and the current digit of trail entry \<open>i\<close>; two cells share a row, a column
  or a block (the test of \<^verbatim>\<open>Consistent\<close>); the digits that \<^verbatim>\<open>Advance\<close> finds consistent
  at a cell, in the order it stores them.
\<close>

definition cell_of :: "ostate \<Rightarrow> nat \<Rightarrow> nat \<times> nat" where
  "cell_of st i = (r_arr st i, c_arr st i)"

definition val_of :: "ostate \<Rightarrow> nat \<Rightarrow> int" where
  "val_of st i = n_arr st i (m_arr st i)"

definition shares :: "nat \<times> nat \<Rightarrow> nat \<times> nat \<Rightarrow> bool" where
  "shares p q = (fst p = fst q \<or> snd p = snd q \<or>
                 (fst p - 1) div 3 + 3 * ((snd p - 1) div 3) = (fst q - 1) div 3 + 3 * ((snd q - 1) div 3))"

definition candidates :: "ostate \<Rightarrow> nat \<Rightarrow> nat \<Rightarrow> int list" where
  "candidates st x y = filter (\<lambda>v. Consistent st x y v (istar st)) [1 .. 9]"

text \<open>
  The shape of the trail: the clue entries come first, the trail holds at most 81
  different cells of the grid, \<^verbatim>\<open>Gtilde\<close> flags exactly the cells on the trail, and every
  entry above the clues has a current candidate.
\<close>

definition struct_inv :: "ostate \<Rightarrow> bool" where
  "struct_inv st =
     (Csize st \<le> istar st \<and> istar st \<le> 81 \<and>
      (\<forall>i \<in> {1 .. istar st}. cell_of st i \<in> sites) \<and>
      inj_on (cell_of st) {1 .. istar st} \<and>
      (\<forall>p \<in> sites. Gtilde st (fst p) (snd p) \<longleftrightarrow> p \<in> cell_of st ` {1 .. istar st}) \<and>
      (\<forall>i \<in> {Csize st <.. istar st}. 1 \<le> m_arr st i))"

text \<open>
  The measure of the loop: the candidate indices of the trail read as a number in base
  11, the entry at depth \<open>i\<close> with weight \<open>11 ^ (81 - i)\<close>, plus a term for the status.
\<close>

definition mu :: "nat \<Rightarrow> ostate \<Rightarrow> nat" where
  "mu status st =
     (\<Sum>i \<in> {1 .. istar st}. m_arr st i * 11 ^ (81 - i))
     + (if status = 1 then 11 ^ (81 - istar st) else 1)"

text \<open>
  The invariant of the loop of \<^verbatim>\<open>GettingStarted\<close> after the cells \<open>dn\<close> have been visited
  and \<open>i\<close> clues have been put on the trail.
\<close>

definition gs_inv :: "(nat \<Rightarrow> nat \<Rightarrow> int) \<Rightarrow> (nat \<Rightarrow> nat \<Rightarrow> int) \<Rightarrow> (nat \<times> nat) list \<Rightarrow> nat \<Rightarrow> ostate \<Rightarrow> bool" where
  "gs_inv C s dn i st =
     ((\<forall>j \<in> {1 .. i}. cell_of st j \<in> set dn \<and> m_arr st j = 1 \<and>
                        n_arr st j 1 = s (r_arr st j) (c_arr st j)) \<and>
      inj_on (cell_of st) {1 .. i} \<and>
      (\<forall>p \<in> set dn. Gtilde st (fst p) (snd p) \<longleftrightarrow> p \<in> cell_of st ` {1 .. i}) \<and>
      (\<forall>p \<in> set dn. Gtilde st (fst p) (snd p) \<longleftrightarrow> C (fst p) (snd p) \<noteq> 0) \<and>
      i \<le> length dn)"

text \<open>
  A grid \<open>g\<close> follows the trail up to depth \<open>j\<close> when it holds the current digit of each
  of the first \<open>j\<close> entries.  The candidates of entry \<open>i\<close> still to be tried are those
  below the current one.  A grid is pending when the search can still reach it: it
  follows the whole trail (and the search is advancing, or has stopped on a full trail),
  or it follows the trail up to some depth and holds, at the next entry, a candidate
  still to be tried.  The invariant of the search: every grid of \<open>Sol\<close> is a valid grid,
  and is in \<open>P\<close> (the grids already found) or pending.
\<close>

definition follows :: "ostate \<Rightarrow> nat \<Rightarrow> (nat \<Rightarrow> nat \<Rightarrow> int) \<Rightarrow> bool" where
  "follows st j g = (\<forall>i \<in> {1 .. j}. g (r_arr st i) (c_arr st i) = val_of st i)"

definition untried :: "ostate \<Rightarrow> nat \<Rightarrow> int set" where
  "untried st i = n_arr st i ` {t. 1 \<le> t \<and> t < m_arr st i}"

definition pending :: "nat \<Rightarrow> ostate \<Rightarrow> (nat \<Rightarrow> nat \<Rightarrow> int) \<Rightarrow> bool" where
  "pending status st g =
     (\<exists>j. Csize st \<le> j \<and> j \<le> istar st \<and> follows st j g \<and>
          (if j = istar st then status = 1 \<or> (status = 0 \<and> istar st = 81)
           else g (r_arr st (j + 1)) (c_arr st (j + 1)) \<in> untried st (j + 1)))"

definition search_inv ::
  "((nat \<Rightarrow> nat \<Rightarrow> int) \<Rightarrow> bool) \<Rightarrow> ((nat \<Rightarrow> nat \<Rightarrow> int) \<Rightarrow> bool) \<Rightarrow> nat \<Rightarrow> ostate \<Rightarrow> bool" where
  "search_inv Sol P status st =
     (struct_inv st \<and> (status = 0 \<longrightarrow> istar st = 81 \<or> istar st = Csize st) \<and>
      (\<forall>g. Sol g \<longrightarrow> valid_grid g \<and> (P g \<or> pending status st g)))"


text \<open>The test of \<open>valid_grid\<close> as a loop over the 81 cells.\<close>

definition valid_list :: "(nat \<Rightarrow> nat \<Rightarrow> int) \<Rightarrow> bool" where
  "valid_list g =
     list_all (\<lambda>p. 1 \<le> g (fst p) (snd p) \<and> g (fst p) (snd p) \<le> 9 \<and>
        list_all (\<lambda>q. \<not> adj p q \<or> g (fst p) (snd p) \<noteq> g (fst q) (snd q)) grid_list) grid_list"


section \<open>Example configurations\<close>

text \<open>
  A KenKen grid (the cyclic Latin square, one region: sites 1 and 2 with sum 4) and a Two
  Not Touch position on a board of ten 2x5 regions, each at a temperature \<open>t\<close>, and a
  Sudoku position with three clues (the 9s at (1,4), (2,2) and (4,1)) whose other cells
  hold a random filling.
\<close>

definition ex_x1 :: "nat \<Rightarrow> int" where
  "ex_x1 k = (if 1 \<le> k \<and> k \<le> 49 then int (((k - 1) div 7 + (k - 1) mod 7) mod 7) + 1 else - 1)"

definition ex_puzzle :: "nat \<Rightarrow> nat \<Rightarrow> nat" where
  "ex_puzzle k i = (if k = 0 \<and> i = 0 then 1 else if k = 1 \<and> i = 0 then 2
                    else if k = 1 \<and> i = 1 then 1 else if k = 1 \<and> i = 2 then 2 else 0)"

definition ex_kk :: "real \<Rightarrow> kenken" where
  "ex_kk t = \<lparr>x1 = ex_x1, I0 = 0, I1 = 0, puzzle = ex_puzzle,
              op = (\<lambda>k. CHR ''+''), ans = (\<lambda>k. 4),
              kT = t, kprob = kk_Probabilities t\<rparr>"

definition ex_col :: "nat \<Rightarrow> nat \<Rightarrow> nat" where
  "ex_col r s = (if s = 1 then r else (r + 4) mod 10 + 1)"

definition ex_reg :: "nat \<Rightarrow> nat \<Rightarrow> nat" where
  "ex_reg r c = (if r \<le> 5 then (c + 1) div 2 else 5 + (c + 1) div 2)"

definition ex_tnt :: "real \<Rightarrow> tnt" where
  "ex_tnt t = \<lparr>col = ex_col, reg = ex_reg, tR = 0, tS = 0, tC = 0,
               tT = t, tP = tnt_Probabilities t\<rparr>"

definition ex_x :: "nat \<Rightarrow> nat \<Rightarrow> int" where
  "ex_x r c = (if (r, c) \<in> set [(1, 4), (2, 2), (4, 1), (1, 5), (1, 6), (1, 7), (1, 8), (1, 9), (5, 1)] then 9
               else if (r, c) = (1, 1) then 1 else 2)"

definition ex_clue :: "nat \<Rightarrow> nat \<Rightarrow> bool" where
  "ex_clue r c = ((r, c) \<in> set [(1, 4), (2, 2), (4, 1)])"

definition ex_prob :: "nat \<Rightarrow> real" where
  \<comment> \<open>the table of the Sudoku solver at T = 0.39\<close>
  "ex_prob = sud_Probabilities (39 / 100)"


text \<open>
  For the image: the white image (a file \<^verbatim>\<open>DegradedImagePixels.txt\<close> that lists no black
  pixel), and the white image with the corner pixel (1, 1) flipped.
\<close>

definition ex_white :: "nat \<Rightarrow> nat \<Rightarrow> int" where
  "ex_white i j = 0"

definition ex_corner :: "nat \<Rightarrow> nat \<Rightarrow> int" where
  "ex_corner = img_flip ex_white 1 1"

text \<open>
  For the uniqueness test: a reference solution (every row is the row above shifted by
  three, with one more shift from band to band), the clue set without a clue, and arrays
  as they are before the first call (all zero).
\<close>

definition ex_s :: "nat \<Rightarrow> nat \<Rightarrow> int" where
  "ex_s x y = int ((3 * (x - 1) + (x - 1) div 3 + (y - 1)) mod 9) + 1"

definition ex_none :: "nat \<Rightarrow> nat \<Rightarrow> int" where
  "ex_none x y = 0"

definition st0 :: ostate where
  "st0 = \<lparr>r_arr = (\<lambda>_. 0), c_arr = (\<lambda>_. 0), m_arr = (\<lambda>_. 0), n_arr = (\<lambda>_ _. 0),
          Gtilde = (\<lambda>_ _. False), istar = 0, Csize = 0\<rparr>"


text \<open>
  A second valid grid, \<open>ex_s\<close> with the digits 1 and 8 exchanged, and the clue flags that
  leave out the 18 sites where \<open>ex_s\<close> holds 1 or 8: both grids complete these clues.
\<close>

definition ex_s2 :: "nat \<Rightarrow> nat \<Rightarrow> int" where
  "ex_s2 x y = (if ex_s x y = 1 then 8 else if ex_s x y = 8 then 1 else ex_s x y)"

definition ex_C :: "nat \<Rightarrow> nat \<Rightarrow> int" where
  "ex_C x y = (if ex_s x y = 1 \<or> ex_s x y = 8 then 0 else 1)"

section \<open>Exact undo\<close>

lemma swap_sites_twice: "swap_sites (swap_sites x i j) i j = x"
  by (auto simp: swap_sites_def Let_def fun_eq_iff)

lemma update2_undo: "update2 (update2 a i j v) i j (a i j) = a"
  by (auto simp: update2_def fun_eq_iff)

text \<open>
  C4.  KenKen: after \<^verbatim>\<open>Proposal ()\<close> has swapped the digits at sites I0 and I1,
  \<^verbatim>\<open>ChangeBack ()\<close> gives back the grid \<^verbatim>\<open>x1\<close> as it was, for every grid and every outcome
  of the random draws.  Two Not Touch: after \<^verbatim>\<open>Proposal ()\<close> has moved star S of row R,
  the assignment \<^verbatim>\<open>col[R][S] = C\<close> gives back the star positions \<^verbatim>\<open>col\<close> as they were.
  In both programs a rejected Metropolis step therefore leaves the configuration
  unchanged.
\<close>

theorem exact_undo:
  "(kk_Proposal st d0 ds = Some st1 \<longrightarrow> x1 (ChangeBack st1) = x1 st) \<and>
   (tnt_Proposal tst r s cs = Some tst1 \<longrightarrow> col (tnt_undo tst1) = col tst) \<and>
   (kk_step st E d0 ds U = Some (Inr (st2, E2, False)) \<longrightarrow> x1 st2 = x1 st \<and> E2 = E) \<and>
   (tnt_step tst E' r s cs U' = Some (Inr (tst2, E2', False)) \<longrightarrow> col tst2 = col tst \<and> E2' = E')"
proof (intro conjI impI)
  show kk: "x1 (ChangeBack st1) = x1 st" if "kk_Proposal st d0 ds = Some st1" for st1
    using that by (auto simp: kk_Proposal_def ChangeBack_def swap_sites_twice split: option.splits)
  show tn: "col (tnt_undo tst1) = col tst" if "tnt_Proposal tst r s cs = Some tst1" for tst1
    using that by (auto simp: tnt_Proposal_def tnt_undo_def Let_def update2_undo split: option.splits)
  show "x1 st2 = x1 st" "E2 = E" if "kk_step st E d0 ds U = Some (Inr (st2, E2, False))"
    using that kk
    by (auto simp: kk_step_def Let_def split: option.splits sum.splits if_splits)
  show "col tst2 = col tst" "E2' = E'" if "tnt_step tst E' r s cs U' = Some (Inr (tst2, E2', False))"
    using that tn
    by (auto simp: tnt_step_def Let_def split: option.splits sum.splits if_splits)
qed

lemma ex_kk_Proposal:
  "kk_Proposal (ex_kk t) 1 [1, 2] = Some ((ex_kk t)\<lparr>I0 := 1, I1 := 2, x1 := swap_sites ex_x1 1 2\<rparr>)"
  by (simp add: kk_Proposal_def ex_kk_def ex_x1_def)

lemma ex_kk_Energy_arrays:
  "Energy_arrays (swap_sites ex_x1 1 2) ex_puzzle (\<lambda>k. CHR ''+'') (\<lambda>k. 4) = Inr 5"
  by code_simp

lemma ex_kk_Energy:
  "kk_Energy ((ex_kk t)\<lparr>I0 := 1, I1 := 2, x1 := swap_sites ex_x1 1 2\<rparr>) = Inr 5"
  using ex_kk_Energy_arrays by (simp add: kk_Energy_def ex_kk_def)

lemma ex_tnt_Proposal:
  "tnt_Proposal (ex_tnt t) 3 1 [3, 8, 7]
     = Some ((ex_tnt t)\<lparr>tR := 3, tS := 1, tC := 3, col := update2 ex_col 3 1 7\<rparr>)"
  by (simp add: tnt_Proposal_def ex_tnt_def ex_col_def Let_def)

lemma ex_tnt_Energy_stars: "Energy_stars (update2 ex_col 3 1 7) ex_reg = 21"
  by code_simp

lemma ex_tnt_Energy:
  "tnt_Energy ((ex_tnt t)\<lparr>tR := 3, tS := 1, tC := 3, col := update2 ex_col 3 1 7\<rparr>) = 21"
  using ex_tnt_Energy_stars by (simp add: tnt_Energy_def ex_tnt_def)

theorem exact_undo_witness:
  "kk_Proposal (ex_kk 0) 1 [1, 2] = Some ((ex_kk 0)\<lparr>I0 := 1, I1 := 2, x1 := swap_sites ex_x1 1 2\<rparr>) \<and>
   x1 (ChangeBack ((ex_kk 0)\<lparr>I0 := 1, I1 := 2, x1 := swap_sites ex_x1 1 2\<rparr>)) = x1 (ex_kk 0) \<and>
   tnt_Proposal (ex_tnt 0) 3 1 [3, 8, 7]
     = Some ((ex_tnt 0)\<lparr>tR := 3, tS := 1, tC := 3, col := update2 ex_col 3 1 7\<rparr>) \<and>
   col (tnt_undo ((ex_tnt 0)\<lparr>tR := 3, tS := 1, tC := 3, col := update2 ex_col 3 1 7\<rparr>)) = col (ex_tnt 0) \<and>
   kk_step (ex_kk 0) 1 1 [1, 2] (1 / 2)
     = Some (Inr (ChangeBack ((ex_kk 0)\<lparr>I0 := 1, I1 := 2, x1 := swap_sites ex_x1 1 2\<rparr>), 1, False)) \<and>
   tnt_step (ex_tnt 0) 17 3 1 [3, 8, 7] (1 / 2)
     = Some (Inr (tnt_undo ((ex_tnt 0)\<lparr>tR := 3, tS := 1, tC := 3, col := update2 ex_col 3 1 7\<rparr>), 17, False))"
proof -
  let ?k1 = "(ex_kk 0)\<lparr>I0 := 1, I1 := 2, x1 := swap_sites ex_x1 1 2\<rparr>"
  let ?t1 = "(ex_tnt 0)\<lparr>tR := 3, tS := 1, tC := 3, col := update2 ex_col 3 1 7\<rparr>"
  have kp: "kk_Proposal (ex_kk 0) 1 [1, 2] = Some ?k1" by (rule ex_kk_Proposal)
  have tp: "tnt_Proposal (ex_tnt 0) 3 1 [3, 8, 7] = Some ?t1" by (rule ex_tnt_Proposal)
  have kt: "kT (ex_kk 0) = 0" and tt: "tT (ex_tnt 0) = 0" by (simp_all add: ex_kk_def ex_tnt_def)
  have ks: "kk_step (ex_kk 0) 1 1 [1, 2] (1 / 2) = Some (Inr (ChangeBack ?k1, 1, False))"
    using kp ex_kk_Energy [of 0] kt by (simp add: kk_step_def)
  have ts: "tnt_step (ex_tnt 0) 17 3 1 [3, 8, 7] (1 / 2) = Some (Inr (tnt_undo ?t1, 17, False))"
    using tp ex_tnt_Energy [of 0] tt by (simp add: tnt_step_def Let_def)
  from exact_undo [of "ex_kk 0" 1 "[1, 2]" ?k1 "ex_tnt 0" 3 1 "[3, 8, 7]" ?t1 1 "1 / 2"
                      "ChangeBack ?k1" 1 17 "1 / 2" "tnt_undo ?t1" 17] kp tp ks ts
  show ?thesis by simp
qed


section \<open>The acceptance rule\<close>

lemma sud_accept:
  assumes "sud_Proposal x clue cells digits = Some (i0, j0, x0)"
  shows "(let deltaE = sud_deltaE x clue i0 j0 x0;
              acc = Inr (update2 x i0 j0 x0, E + deltaE, True);
              rej = Inr (x, E, False)
          in (deltaE \<le> 0 \<longrightarrow> sud_step x clue T prob E cells digits U = Some acc) \<and>
             (0 < deltaE \<and> deltaE \<le> 20 \<and> 0 < T \<longrightarrow>
                sud_step x clue T prob E cells digits U
                  = Some (if U \<le> prob (nat deltaE) then acc else rej)) \<and>
             (0 < deltaE \<and> \<not> 0 < T \<longrightarrow> sud_step x clue T prob E cells digits U = Some rej))"
  using assms by (simp add: sud_step_def sud_read_prob_def Let_def)

lemma tnt_accept:
  assumes "tnt_Proposal st r s ds = Some st1"
  shows "(let deltaE = tnt_Energy st1 - E;
              acc = Inr (st1, E + deltaE, True);
              rej = Inr (tnt_undo st1, E, False)
          in (deltaE \<le> 0 \<longrightarrow> tnt_step st E r s ds U = Some acc) \<and>
             (0 < deltaE \<and> deltaE \<le> 24 \<and> 0 < tT st \<longrightarrow>
                tnt_step st E r s ds U = Some (if U \<le> tP st (nat deltaE) then acc else rej)) \<and>
             (0 < deltaE \<and> \<not> 0 < tT st \<longrightarrow> tnt_step st E r s ds U = Some rej))"
  using assms by (simp add: tnt_step_def tnt_read_P_def Let_def)

lemma kk_accept:
  assumes "kk_Proposal st d0 ds = Some st1" and "kk_Energy st1 = Inr E1"
  shows "(let deltaE = E1 - E;
              acc = Inr (st1, E + deltaE, True);
              rej = Inr (ChangeBack st1, E, False)
          in (deltaE \<le> 0 \<longrightarrow> kk_step st E d0 ds U = Some acc) \<and>
             (0 < deltaE \<and> deltaE \<le> 10 \<and> 0 < kT st \<longrightarrow>
                kk_step st E d0 ds U = Some (if U \<le> kprob st (nat deltaE) then acc else rej)) \<and>
             (0 < deltaE \<and> \<not> 0 < kT st \<longrightarrow> kk_step st E d0 ds U = Some rej))"
  using assms by (simp add: kk_step_def kk_read_prob_def Let_def)

text \<open>
  The three lemmas above give the rule of the claim for every move whose \<open>deltaE\<close> has an
  entry in the table.  The next lemmas evaluate two proposals in the position \<open>ex_x\<close>.
\<close>

lemma ex_sud_deltaE:
  "sud_deltaE ex_x ex_clue 1 2 9 = 3" "sud_deltaE ex_x ex_clue 1 2 3 = - 12"
  by code_simp+

lemma ex_sud_deltaE_21: "sud_deltaE ex_x ex_clue 1 1 9 = 21"
  by code_simp

text \<open>
  C1, at a step of the Sudoku solver where the rule does not hold.  In the position \<open>ex_x\<close>
  with the clues \<open>ex_clue\<close> the proposal "9 into the free cell (1, 1)" has \<open>deltaE = 21 > 0\<close>.
  At the positive temperature 0.39 the rule asks that the move be accepted exactly when
  the variate \<open>U\<close> is at most the table value for this \<open>deltaE\<close>.  The table has the entries
  \<^verbatim>\<open>prob[0..20]\<close> only: whatever the table holds, whatever the current energy \<open>E\<close> and the
  variate \<open>U\<close> are, the step reads outside the table, and the move is neither accepted nor
  rejected by the rule.
\<close>

theorem metropolis_acceptance_past_table:
  "sud_Proposal ex_x ex_clue [(1, 1)] [9] = Some (1, 1, 9) \<and>
   0 < sud_deltaE ex_x ex_clue 1 1 9 \<and>
   (0 :: real) < 39 / 100 \<and>
   sud_step ex_x ex_clue (39 / 100) prob E [(1, 1)] [9] U = Some (Inl TableOutOfBounds) \<and>
   sud_step ex_x ex_clue (39 / 100) prob E [(1, 1)] [9] U
     \<noteq> Some (Inr (update2 ex_x 1 1 9, E + sud_deltaE ex_x ex_clue 1 1 9, True)) \<and>
   sud_step ex_x ex_clue (39 / 100) prob E [(1, 1)] [9] U \<noteq> Some (Inr (ex_x, E, False))"
proof -
  have p: "sud_Proposal ex_x ex_clue [(1, 1)] [9] = Some (1, 1, 9)"
    by (simp add: sud_Proposal_def ex_x_def ex_clue_def)
  have "sud_step ex_x ex_clue (39 / 100) prob E [(1, 1)] [9] U = Some (Inl TableOutOfBounds)"
    using p ex_sud_deltaE_21 by (simp add: sud_step_def sud_read_prob_def Let_def)
  with p ex_sud_deltaE_21 show ?thesis by simp
qed


section \<open>Reads of the acceptance tables\<close>

lemma ms_table_read_in_domain:
  "0 < DeltaE \<Longrightarrow> ms_accept_prob P DeltaE = (if DeltaE < 100 then Inr (P (nat DeltaE)) else Inr 0)"
  by (simp add: ms_accept_prob_def)

lemma ex_Energy: "Energy ex_x ex_clue = 675"
  by code_simp

text \<open>
  C9.  The magic square generator reads \<^verbatim>\<open>P[DeltaE]\<close> only behind the guard
  \<^verbatim>\<open>DeltaE < 100\<close> and takes the probability 0 otherwise (\<open>ms_table_read_in_domain\<close>).
  The Sudoku solver has no such guard.  In the position \<open>ex_x\<close> (energy 675) with the three
  clues \<open>ex_clue\<close>, the proposal that puts a 9 into the free cell (1, 1) conflicts with the
  three clues (5 each) and with six free cells of row 1 and column 1 that hold a 9, so
  \<open>deltaE = 21\<close>; at \<open>T = 0.39\<close> the step evaluates \<^verbatim>\<open>prob[21]\<close>, past the 21 entries
  \<^verbatim>\<open>prob[0..20]\<close> that were allocated, instead of treating the move as one of
  probability 0.
\<close>

theorem sud_table_read_out_of_bounds:
  "Energy ex_x ex_clue = 675 \<and>
   sud_Proposal ex_x ex_clue [(1, 1)] [9] = Some (1, 1, 9) \<and>
   sud_deltaE ex_x ex_clue 1 1 9 = 21 \<and>
   sud_step ex_x ex_clue (39 / 100) ex_prob 675 [(1, 1)] [9] (1 / 2) = Some (Inl TableOutOfBounds)"
proof -
  have p: "sud_Proposal ex_x ex_clue [(1, 1)] [9] = Some (1, 1, 9)"
    by (simp add: sud_Proposal_def ex_x_def ex_clue_def)
  have "sud_step ex_x ex_clue (39 / 100) ex_prob 675 [(1, 1)] [9] (1 / 2) = Some (Inl TableOutOfBounds)"
    using p ex_sud_deltaE_21 by (simp add: sud_step_def sud_read_prob_def Let_def)
  with p ex_Energy ex_sud_deltaE_21 show ?thesis by blast
qed


section \<open>The energy change of a Sudoku move\<close>

lemma adj_sym: "adj p q = adj q p"
  by (auto simp: adj_def)

lemma adj_irrefl: "\<not> adj p p"
  by (simp add: adj_def)

lemma wt_sym: "wt clue p q = wt clue q p"
  by (auto simp: wt_def)

lemma block_interval:
  fixes r0 :: nat
  assumes "1 \<le> r0" "r0 < 10"
  shows "{1 + 3 * ((r0 - 1) div 3) ..< 1 + 3 * ((r0 - 1) div 3) + 3}
           = {r \<in> {1 ..< 10}. (r - 1) div 3 = (r0 - 1) div 3}"
  using assms by auto presburger

lemma sum_list_upt: "sum_list (map f [a ..< b]) = sum f {a ..< b}"
  by (simp add: interv_sum_list_conv_sum_set_nat)

lemma if_sum_push: "(if P then (\<Sum>c \<in> S. h c) else (0 :: int)) = (\<Sum>c \<in> S. if P then h c else 0)"
  by simp

lemma if_if_conj: "(if A then (if B then x else 0) else (0 :: int)) = (if A \<and> B then x else 0)"
  by simp

lemma sites_sum:
  "(\<Sum>q \<in> sites. f q) = (\<Sum>r \<in> {1 ..< 10}. \<Sum>c \<in> {1 ..< 10}. f (r, c))"
  unfolding sites_def sum.cartesian_product by (rule sum.cong) auto

lemma row_part:
  assumes "r0 \<in> {1 ..< 10 :: nat}"
  shows "(\<Sum>k \<in> {1 ..< 10}. if k \<noteq> c0 then g (r0, k) else (0 :: int))
           = (\<Sum>q \<in> sites. if fst q = r0 \<and> snd q \<noteq> c0 then g q else 0)"
proof -
  have inner: "(\<Sum>c \<in> {1 ..< 10}. if r = r0 \<and> c \<noteq> c0 then g (r, c) else 0)
                 = (if r = r0 then (\<Sum>c \<in> {1 ..< 10}. if c \<noteq> c0 then g (r0, c) else 0) else 0)" for r
    by (cases "r = r0") auto
  show ?thesis
    unfolding sites_sum fst_conv snd_conv inner using assms by (simp add: sum.delta)
qed

lemma col_part:
  assumes "c0 \<in> {1 ..< 10 :: nat}"
  shows "(\<Sum>k \<in> {1 ..< 10}. if k \<noteq> r0 then g (k, c0) else (0 :: int))
           = (\<Sum>q \<in> sites. if snd q = c0 \<and> fst q \<noteq> r0 then g q else 0)"
proof -
  have inner: "(\<Sum>c \<in> {1 ..< 10}. if c = c0 \<and> r \<noteq> r0 then g (r, c) else 0)
                 = (if r \<noteq> r0 then g (r, c0) else 0)" for r
    using assms by (cases "r = r0") simp_all
  show ?thesis
    unfolding sites_sum fst_conv snd_conv inner by (rule refl)
qed

lemma block_part:
  fixes r0 c0 :: nat
  assumes "r0 \<in> {1 ..< 10}" "c0 \<in> {1 ..< 10}"
  shows "(\<Sum>r \<in> {1 + 3 * ((r0 - 1) div 3) ..< 1 + 3 * ((r0 - 1) div 3) + 3}.
            \<Sum>c \<in> {1 + 3 * ((c0 - 1) div 3) ..< 1 + 3 * ((c0 - 1) div 3) + 3}.
               if r \<noteq> r0 \<and> c \<noteq> c0 then g (r, c) else (0 :: int))
           = (\<Sum>q \<in> sites. if ((fst q - 1) div 3 = (r0 - 1) div 3 \<and> (snd q - 1) div 3 = (c0 - 1) div 3)
                                  \<and> fst q \<noteq> r0 \<and> snd q \<noteq> c0 then g q else 0)"
proof -
  have r: "{1 + 3 * ((r0 - 1) div 3) ..< 1 + 3 * ((r0 - 1) div 3) + 3}
             = {r \<in> {1 ..< 10}. (r - 1) div 3 = (r0 - 1) div 3}"
    and c: "{1 + 3 * ((c0 - 1) div 3) ..< 1 + 3 * ((c0 - 1) div 3) + 3}
             = {c \<in> {1 ..< 10}. (c - 1) div 3 = (c0 - 1) div 3}"
    using assms block_interval [of r0] block_interval [of c0] by auto
  show ?thesis
    unfolding r c sites_sum
    by (simp only: sum.inter_filter finite_atLeastLessThan if_sum_push if_if_conj fst_conv snd_conv conj_assoc)
qed


lemma finite_sites: "finite sites"
  by (simp add: sites_def)

lemma Conflicts_cnt:
  assumes "(r0, c0) \<in> sites"
  shows "Conflicts x clue r0 c0 d = cnt clue (\<lambda>q. x (fst q) (snd q)) (r0, c0) d"
proof -
  define g where "g = (\<lambda>q. b2i (x (fst q) (snd q) = d) * wt clue (r0, c0) q)"
  let ?A = "\<lambda>q. fst q = r0 \<and> snd q \<noteq> c0"
  let ?B = "\<lambda>q. snd q = c0 \<and> fst q \<noteq> r0"
  let ?C = "\<lambda>q. ((fst q - 1) div 3 = (r0 - 1) div 3 \<and> (snd q - 1) div 3 = (c0 - 1) div 3)
                  \<and> fst q \<noteq> r0 \<and> snd q \<noteq> c0"
  from assms have r0: "r0 \<in> {1 ..< 10}" and c0: "c0 \<in> {1 ..< 10}" by (auto simp: sites_def)
  have "Conflicts x clue r0 c0 d
      = (\<Sum>k \<in> {1 ..< 10}. if k \<noteq> c0 then g (r0, k) else 0)
      + (\<Sum>k \<in> {1 ..< 10}. if k \<noteq> r0 then g (k, c0) else 0)
      + (\<Sum>r \<in> {1 + 3 * ((r0 - 1) div 3) ..< 1 + 3 * ((r0 - 1) div 3) + 3}.
            \<Sum>c \<in> {1 + 3 * ((c0 - 1) div 3) ..< 1 + 3 * ((c0 - 1) div 3) + 3}.
               if r \<noteq> r0 \<and> c \<noteq> c0 then g (r, c) else 0)"
    by (simp add: g_def Conflicts_def Let_def sum_list_upt sum.distrib wt_def cong: if_cong)
  also have "\<dots> = (\<Sum>q \<in> sites. if ?A q then g q else 0) + (\<Sum>q \<in> sites. if ?B q then g q else 0)
                  + (\<Sum>q \<in> sites. if ?C q then g q else 0)"
    by (simp only: row_part [OF r0, of c0 g] col_part [OF c0, of r0 g] block_part [OF r0 c0, of g])
  also have "\<dots> = (\<Sum>q \<in> sites. (if ?A q then g q else 0) + (if ?B q then g q else 0)
                                  + (if ?C q then g q else 0))"
    by (simp only: sum.distrib)
  also have "\<dots> = (\<Sum>q \<in> sites. if adj (r0, c0) q \<and> x (fst q) (snd q) = d then wt clue (r0, c0) q else 0)"
    by (rule sum.cong) (auto simp: adj_def b2i_def g_def)
  finally show ?thesis by (simp add: cnt_def)
qed

lemma cnt_update_self:
  assumes "\<And>q. q \<noteq> p0 \<Longrightarrow> v' q = v q"
  shows "cnt clue v' p0 d = cnt clue v p0 d"
proof -
  have "v' q = v q" if "adj p0 q" for q
    using that assms [of q] adj_irrefl [of p0] by auto
  then show ?thesis
    unfolding cnt_def by (intro sum.cong refl) auto
qed

lemma cnt_update_other:
  assumes "p0 \<in> sites" and "v' p0 = e" and "\<And>q. q \<noteq> p0 \<Longrightarrow> v' q = v q"
  shows "cnt clue v' p d
           = cnt clue v p d + (if adj p p0 \<and> e = d then wt clue p p0 else 0)
                            - (if adj p p0 \<and> v p0 = d then wt clue p p0 else 0)"
proof -
  let ?t = "\<lambda>u q. if adj p q \<and> u q = d then wt clue p q else 0"
  have "cnt clue v' p d = ?t v' p0 + (\<Sum>q \<in> sites - {p0}. ?t v' q)"
    unfolding cnt_def using assms(1) finite_sites by (rule_tac sum.remove) auto
  also have "(\<Sum>q \<in> sites - {p0}. ?t v' q) = (\<Sum>q \<in> sites - {p0}. ?t v q)"
    by (rule sum.cong) (auto simp: assms(3))
  also have "\<dots> = cnt clue v p d - ?t v p0"
    unfolding cnt_def using assms(1) finite_sites by (simp add: sum_diff1)
  finally show ?thesis by (simp add: assms(2))
qed

lemma total_update:
  assumes "p0 \<in> sites" and "v' p0 = e" and "\<And>q. q \<noteq> p0 \<Longrightarrow> v' q = v q"
  shows "(\<Sum>p \<in> sites. cnt clue v' p (v' p))
           = (\<Sum>p \<in> sites. cnt clue v p (v p)) + 2 * (cnt clue v p0 e - cnt clue v p0 (v p0))"
proof -
  let ?a = "\<lambda>p. if adj p p0 \<and> e = v p then wt clue p p0 else 0"
  let ?b = "\<lambda>p. if adj p p0 \<and> v p0 = v p then wt clue p p0 else 0"
  have a: "(\<Sum>p \<in> sites - {p0}. ?a p) = cnt clue v p0 e"
  proof -
    have "(\<Sum>p \<in> sites - {p0}. ?a p) = (\<Sum>p \<in> sites. ?a p)"
      using assms(1) finite_sites by (simp add: sum_diff1 adj_irrefl)
    also have "\<dots> = cnt clue v p0 e"
      unfolding cnt_def by (rule sum.cong) (auto simp: adj_sym [of _ p0] wt_sym [of _ _ p0])
    finally show ?thesis .
  qed
  have b: "(\<Sum>p \<in> sites - {p0}. ?b p) = cnt clue v p0 (v p0)"
  proof -
    have "(\<Sum>p \<in> sites - {p0}. ?b p) = (\<Sum>p \<in> sites. ?b p)"
      using assms(1) finite_sites by (simp add: sum_diff1 adj_irrefl)
    also have "\<dots> = cnt clue v p0 (v p0)"
      unfolding cnt_def by (rule sum.cong) (auto simp: adj_sym [of _ p0] wt_sym [of _ _ p0])
    finally show ?thesis .
  qed
  have "(\<Sum>p \<in> sites. cnt clue v' p (v' p))
          = cnt clue v' p0 (v' p0) + (\<Sum>p \<in> sites - {p0}. cnt clue v' p (v' p))"
    using assms(1) finite_sites by (rule_tac sum.remove) auto
  also have "cnt clue v' p0 (v' p0) = cnt clue v p0 e"
    using cnt_update_self [of p0 v' v clue e] assms(2,3) by simp
  also have "(\<Sum>p \<in> sites - {p0}. cnt clue v' p (v' p))
               = (\<Sum>p \<in> sites - {p0}. cnt clue v p (v p) + ?a p - ?b p)"
    by (rule sum.cong) (auto simp: cnt_update_other [of p0 v' e v, OF assms] assms(3))
  also have "\<dots> = (\<Sum>p \<in> sites - {p0}. cnt clue v p (v p)) + cnt clue v p0 e - cnt clue v p0 (v p0)"
    by (simp add: sum.distrib sum_subtractf a b)
  also have "(\<Sum>p \<in> sites - {p0}. cnt clue v p (v p)) = (\<Sum>p \<in> sites. cnt clue v p (v p)) - cnt clue v p0 (v p0)"
    using assms(1) finite_sites by (simp add: sum_diff1)
  finally show ?thesis by simp
qed

lemma even_symmetric_sum:
  fixes h :: "'a \<Rightarrow> 'a \<Rightarrow> int"
  assumes "finite S" "\<And>p q. h p q = h q p" "\<And>p. h p p = 0"
  shows "even (\<Sum>p \<in> S. \<Sum>q \<in> S. h p q)"
  using assms(1)
proof (induction S)
  case empty
  show ?case by simp
next
  case (insert a S)
  have "(\<Sum>p \<in> insert a S. \<Sum>q \<in> insert a S. h p q)
          = (\<Sum>q \<in> S. h a q) + (\<Sum>p \<in> S. h p a) + (\<Sum>p \<in> S. \<Sum>q \<in> S. h p q)"
    using insert.hyps by (simp add: assms(3) sum.distrib)
  also have "(\<Sum>p \<in> S. h p a) = (\<Sum>q \<in> S. h a q)"
    by (rule sum.cong) (simp_all add: assms(2))
  finally show ?case using insert.IH by simp
qed

lemma total_even: "even (\<Sum>p \<in> sites. cnt clue v p (v p))"
  unfolding cnt_def
  by (rule even_symmetric_sum [OF finite_sites]) (auto simp: adj_sym wt_sym adj_irrefl)

lemma Energy_total:
  "Energy x clue = (\<Sum>p \<in> sites. cnt clue (\<lambda>q. x (fst q) (snd q)) p (x (fst p) (snd p))) div 2"
proof -
  have "(\<Sum>p \<in> sites. cnt clue (\<lambda>q. x (fst q) (snd q)) p (x (fst p) (snd p)))
          = (\<Sum>p \<in> sites. Conflicts x clue (fst p) (snd p) (x (fst p) (snd p)))"
    by (rule sum.cong) (simp_all add: Conflicts_cnt)
  then show ?thesis
    by (simp add: Energy_def sum_list_upt sites_sum)
qed

lemma Energy_update:
  assumes "(i0, j0) \<in> sites"
  shows "Energy (update2 x i0 j0 d) clue - Energy x clue
           = Conflicts x clue i0 j0 d - Conflicts x clue i0 j0 (x i0 j0)"
proof -
  define v where "v = (\<lambda>q. x (fst q) (snd q))"
  define v' where "v' = (\<lambda>q. update2 x i0 j0 d (fst q) (snd q))"
  define F where "F = (\<lambda>u. \<Sum>p \<in> sites. cnt clue u p (u p))"
  have 1: "v' (i0, j0) = d" by (simp add: v'_def update2_def)
  have 2: "v' q = v q" if "q \<noteq> (i0, j0)" for q
    using that by (cases q) (auto simp: v'_def v_def update2_def)
  have "F v' = F v + 2 * (cnt clue v (i0, j0) d - cnt clue v (i0, j0) (v (i0, j0)))"
    unfolding F_def by (rule total_update [of "(i0, j0)" v' d v, OF assms 1 2])
  moreover have "even (F v)"
    unfolding F_def by (rule total_even)
  ultimately have "F v' div 2 - F v div 2 = cnt clue v (i0, j0) d - cnt clue v (i0, j0) (v (i0, j0))"
    by auto
  moreover have "Energy (update2 x i0 j0 d) clue = F v' div 2" "Energy x clue = F v div 2"
    by (simp_all add: Energy_total F_def v_def v'_def)
  moreover have "cnt clue v (i0, j0) d = Conflicts x clue i0 j0 d"
    "cnt clue v (i0, j0) (v (i0, j0)) = Conflicts x clue i0 j0 (x i0 j0)"
    by (simp_all add: Conflicts_cnt [OF assms] v_def)
  ultimately show ?thesis by simp
qed


lemma pick_cell_mem: "pick_cell clue cs = Some p \<Longrightarrow> p \<in> set cs"
  by (induction clue cs rule: pick_cell.induct) (auto split: if_splits)

lemma sud_step_energy:
  assumes "\<forall>p \<in> set cs. p \<in> sites"
      and "sud_step x clue T prob (Energy x clue) cs digits U = Some (Inr (x', E', b))"
  shows "E' = Energy x' clue"
proof -
  from assms(2) obtain i0 j0 x0 where P: "sud_Proposal x clue cs digits = Some (i0, j0, x0)"
    by (auto simp: sud_step_def split: option.splits)
  then have "pick_cell clue cs = Some (i0, j0)"
    by (auto simp: sud_Proposal_def split: option.splits)
  with assms(1) have "(i0, j0) \<in> sites" by (auto dest: pick_cell_mem)
  from Energy_update [OF this, of x x0 clue]
  have "Energy x clue + sud_deltaE x clue i0 j0 x0 = Energy (update2 x i0 j0 x0) clue"
    by (simp add: sud_deltaE_def)
  with assms(2) P show ?thesis
    by (auto simp: sud_step_def Let_def split: if_splits sum.splits)
qed

lemma tnt_step_energy:
  assumes "tnt_step st (tnt_Energy st) r s ds U = Some (Inr (st', E', b))"
  shows "E' = tnt_Energy st'"
  using assms
  by (auto simp: tnt_step_def tnt_Proposal_def tnt_undo_def tnt_Energy_def Let_def update2_undo
           split: option.splits if_splits sum.splits)

lemma kk_step_energy:
  assumes "kk_Energy st = Inr E" and "kk_step st E d0 ds U = Some (Inr (st', E', b))"
  shows "kk_Energy st' = Inr E'"
  using assms
  by (auto simp: kk_step_def kk_Proposal_def ChangeBack_def kk_Energy_def Let_def swap_sites_twice
           split: option.splits if_splits sum.splits)

text \<open>
  Sudoku solver: for every grid \<open>x\<close>, clue flags \<open>clue\<close>, cell (i0, j0) of the grid and
  digit x0, \<^verbatim>\<open>Conflicts (i0, j0, x0) - Conflicts (i0, j0, x[i0][j0])\<close> equals \<^verbatim>\<open>Energy ()\<close>
  of the grid with x0 at (i0, j0) minus \<^verbatim>\<open>Energy ()\<close> of the grid \<open>x\<close>, with the clue
  weights and the halving of the doubly counted pairs.  Consequently every Metropolis
  step that starts with \<open>E\<close> equal to the energy of its configuration ends with \<open>E\<close> equal
  to the energy of the new configuration; the same holds for the Two Not Touch and KenKen
  steps, whose \<open>deltaE\<close> is a difference of two full evaluations.
\<close>

theorem delta_full_consistency:
  "((i0, j0) \<in> sites \<longrightarrow>
      Energy (update2 x i0 j0 x0) clue - Energy x clue
        = Conflicts x clue i0 j0 x0 - Conflicts x clue i0 j0 (x i0 j0)) \<and>
   ((\<forall>p \<in> set cs. p \<in> sites) \<and>
    sud_step x clue T prob (Energy x clue) cs digits U = Some (Inr (x', E', b)) \<longrightarrow>
      E' = Energy x' clue) \<and>
   (tnt_step tst (tnt_Energy tst) r s ds U' = Some (Inr (tst', tE', tb)) \<longrightarrow> tE' = tnt_Energy tst') \<and>
   (kk_Energy kst = Inr kE \<and> kk_step kst kE d0 ks U'' = Some (Inr (kst', kE', kb)) \<longrightarrow>
      kk_Energy kst' = Inr kE')"
  using Energy_update [of i0 j0 x x0 clue] sud_step_energy [of cs x clue T prob digits U x' E' b]
        tnt_step_energy [of tst r s ds U' tst' tE' tb]
        kk_step_energy [of kst kE d0 ks U'' kst' kE' kb]
  by blast

theorem delta_full_consistency_witness:
  "(1, 2) \<in> sites \<and>
   Energy (update2 ex_x 1 2 9) ex_clue - Energy ex_x ex_clue = 3 \<and>
   Conflicts ex_x ex_clue 1 2 9 - Conflicts ex_x ex_clue 1 2 (ex_x 1 2) = 3 \<and>
   Energy (update2 ex_x 1 2 9) ex_clue = 678 \<and>
   list_all (\<lambda>p. p \<in> sites) [(1, 2)] \<and>
   sud_step ex_x ex_clue (39 / 100) ex_prob (Energy ex_x ex_clue) [(1, 2)] [3] (1 / 2)
     = Some (Inr (update2 ex_x 1 2 3, 663, True)) \<and>
   Energy (update2 ex_x 1 2 3) ex_clue = 663"
proof -
  have c: "(1, 2) \<in> sites" by (simp add: sites_def)
  have d: "Conflicts ex_x ex_clue 1 2 9 - Conflicts ex_x ex_clue 1 2 (ex_x 1 2) = 3"
    using ex_sud_deltaE(1) by (simp add: sud_deltaE_def)
  have p: "sud_Proposal ex_x ex_clue [(1, 2)] [3] = Some (1, 2, 3)"
    by (simp add: sud_Proposal_def ex_x_def ex_clue_def)
  have st: "sud_step ex_x ex_clue (39 / 100) ex_prob (Energy ex_x ex_clue) [(1, 2)] [3] (1 / 2)
              = Some (Inr (update2 ex_x 1 2 3, 663, True))"
    using p ex_sud_deltaE(2) ex_Energy by (simp add: sud_step_def Let_def)
  note D = delta_full_consistency
  have e1: "Energy (update2 ex_x 1 2 9) ex_clue - Energy ex_x ex_clue = 3"
    using D [THEN conjunct1, of 1 2 ex_x 9 ex_clue] c d by simp
  have e2: "Energy (update2 ex_x 1 2 3) ex_clue = 663"
    using D [THEN conjunct2, THEN conjunct1,
             of "[(1, 2)]" ex_x ex_clue "39 / 100" ex_prob "[3]" "1 / 2" "update2 ex_x 1 2 3" 663 True]
          c st by simp
  from c d e1 e2 st ex_Energy show ?thesis by simp
qed


section \<open>The energy change of a pixel flip\<close>

lemma grid_sum_local:
  fixes f :: "nat \<Rightarrow> nat \<Rightarrow> real"
  assumes "\<And>i j. 1 \<le> i \<Longrightarrow> 1 \<le> j \<Longrightarrow> (i, j) \<notin> S \<Longrightarrow> f i j = 0"
      and "S \<subseteq> {1 ..< 201} \<times> {1 ..< 201}"
  shows "sum_list (map (\<lambda>i. sum_list (map (\<lambda>j. f i j) [1 ..< 201])) [1 ..< 201])
           = (\<Sum>p \<in> S. f (fst p) (snd p))"
proof -
  have "sum_list (map (\<lambda>i. sum_list (map (\<lambda>j. f i j) [1 ..< 201])) [1 ..< 201])
          = (\<Sum>i \<in> {1 ..< 201}. \<Sum>j \<in> {1 ..< 201}. f i j)"
    by (simp add: sum_list_upt)
  also have "\<dots> = (\<Sum>p \<in> {1 ..< 201} \<times> {1 ..< 201}. f (fst p) (snd p))"
    by (simp add: sum.cartesian_product case_prod_beta)
  also have "\<dots> = (\<Sum>p \<in> S. f (fst p) (snd p))"
    using assms by (intro sum.mono_neutral_right) auto
  finally show ?thesis .
qed

lemma ex_white_Energy: "img_Energy ex_white ex_white lam = 0"
proof -
  have "img_segments ex_white i j = 0" for i j by (simp add: img_segments_def ex_white_def b2i_def)
  then show ?thesis by (simp add: img_Energy_def b2i_def)
qed

lemma ex_corner_pixels: "ex_corner i j = (if i = 1 \<and> j = 1 then 1 else 0)"
  by (simp add: ex_corner_def img_flip_def update2_def ex_white_def)

lemma ex_corner_segments:
  assumes "1 \<le> i" "1 \<le> j"
  shows "img_segments ex_corner i j =
     (if i = 1 \<and> j = 1 then 4 else if i = 1 \<and> j = 2 \<or> i = 2 \<and> j = 1 then 1 else 0)"
  using assms by (auto simp: img_segments_def ex_corner_pixels b2i_def)

lemma ex_corner_Energy: "img_Energy ex_corner ex_white lam = 2 * lam + 1"
proof -
  have B: "sum_list (map (\<lambda>i. sum_list (map (\<lambda>j. (1 / 2) * real_of_int (img_segments ex_corner i j))
             [1 ..< 201])) [1 ..< 201]) = 3"
    by (subst grid_sum_local [where S = "{(1, 1), (1, 2), (2, 1)}"])
       (auto simp: ex_corner_segments)
  have D: "sum_list (map (\<lambda>i. sum_list (map (\<lambda>j. real_of_int (b2i (ex_corner i j \<noteq> ex_white i j)))
             [1 ..< 201])) [1 ..< 201]) = 1"
    by (subst grid_sum_local [where S = "{(1, 1)}"])
       (auto simp: ex_corner_pixels ex_white_def b2i_def)
  show ?thesis unfolding img_Energy_def Let_def B D by (simp add: algebra_simps)
qed

lemma ex_corner_DeltaEnergy: "img_DeltaEnergy ex_white ex_white lam 1 1 = 3 * lam + 1"
  by (simp add: img_DeltaEnergy_def img_segments_def ex_white_def b2i_def algebra_simps)

text \<open>
  C3, at the image engine.  Start from the white image, which is also the degraded image,
  and flip the corner pixel (1, 1).  \<^verbatim>\<open>DeltaEnergy (1, 1)\<close> counts all four sides of the
  pixel with weight 1 and returns \<open>4 lambda + (1 - lambda)\<close>.  \<^verbatim>\<open>Energy ()\<close>, which halves
  every side it sees, sees the two sides towards the frame once and the two sides towards
  the pixels (1, 2) and (2, 1) twice: it is 0 before the flip and
  \<open>3 lambda + (1 - lambda)\<close> after it.  The change that \<^verbatim>\<open>Metropolis\<close> adds to \<^verbatim>\<open>E\<close> exceeds the
  difference of the two full evaluations by \<open>lambda\<close>, for every value of \<open>lambda\<close>.
\<close>

theorem image_delta_differs_from_full:
  "img_flip ex_white 1 1 = ex_corner \<and>
   img_DeltaEnergy ex_white ex_white lam 1 1 = 3 * lam + 1 \<and>
   img_Energy ex_white ex_white lam = 0 \<and>
   img_Energy ex_corner ex_white lam = 2 * lam + 1 \<and>
   img_DeltaEnergy ex_white ex_white lam 1 1
     - (img_Energy (img_flip ex_white 1 1) ex_white lam - img_Energy ex_white ex_white lam) = lam"
  using ex_corner_DeltaEnergy [of lam] ex_white_Energy [of lam] ex_corner_Energy [of lam]
  by (simp add: ex_corner_def)


section \<open>The segment proposal of the tour\<close>

lemma tsp_Proposal_sound:
  assumes "\<forall>d \<in> set ds. 2 \<le> fst d \<and> fst d \<le> K \<and> 2 \<le> snd d \<and> snd d \<le> K"
      and "tsp_Proposal K ds = Some (i0, j0)"
  shows "2 \<le> i0 \<and> i0 < j0 \<and> j0 \<le> K \<and> j0 - i0 < K - 2"
  using assms
proof (induction ds)
  case Nil
  then show ?case by simp
next
  case (Cons d ds)
  obtain a b where d: "d = (a, b)" by (cases d)
  from Cons.prems(1) d have rng: "2 \<le> a" "a \<le> K" "2 \<le> b" "b \<le> K" by auto
  show ?case
  proof (cases "0 < (if b < a then a else b) - (if b < a then b else a)
                \<and> (if b < a then a else b) - (if b < a then b else a) < K - 2")
    case True
    with Cons.prems(2) d have "i0 = (if b < a then b else a)" "j0 = (if b < a then a else b)"
      by (auto simp: Let_def)
    with True rng show ?thesis by (auto split: if_splits)
  next
    case False
    with Cons.prems(2) d have "tsp_Proposal K ds = Some (i0, j0)"
      by (auto simp: Let_def split: if_splits)
    with Cons.IH Cons.prems(1) show ?thesis by simp
  qed
qed

lemma tsp_Proposal_returns:
  assumes "\<exists>d \<in> set ds. acceptable K d"
  shows "tsp_Proposal K ds \<noteq> None"
  using assms
proof (induction ds)
  case Nil
  then show ?case by simp
next
  case (Cons d ds)
  obtain a b where d: "d = (a, b)" by (cases d)
  show ?case
  proof (cases "acceptable K d")
    case True
    with d show ?thesis by (auto simp: acceptable_def Let_def)
  next
    case False
    with Cons.prems have "\<exists>d \<in> set ds. acceptable K d" by auto
    with Cons.IH have "tsp_Proposal K ds \<noteq> None" by simp
    with d show ?thesis by (simp add: Let_def)
  qed
qed

text \<open>
  C10.  When the values drawn by \<^verbatim>\<open>RandomInteger (2, K)\<close> lie in 2..K, the positions that
  \<^verbatim>\<open>Proposal ()\<close> returns satisfy \<open>2 \<le> i0 < j0 \<le> K\<close> and are not the pair (2, K), whose
  reversal would only turn the tour around; and \<^verbatim>\<open>Proposal ()\<close> does return once a
  drawn pair is acceptable (two different positions less than K - 2 apart).
\<close>

theorem tsp_Proposal_range:
  assumes "\<forall>d \<in> set ds. 2 \<le> fst d \<and> fst d \<le> K \<and> 2 \<le> snd d \<and> snd d \<le> K"
  shows "(tsp_Proposal K ds = Some (i0, j0) \<longrightarrow>
            2 \<le> i0 \<and> i0 < j0 \<and> j0 \<le> K \<and> (i0, j0) \<noteq> (2, K)) \<and>
         ((\<exists>d \<in> set ds. acceptable K d) \<longrightarrow> tsp_Proposal K ds \<noteq> None)"
proof (intro conjI impI)
  assume "tsp_Proposal K ds = Some (i0, j0)"
  from tsp_Proposal_sound [OF assms this]
  have *: "2 \<le> i0" "i0 < j0" "j0 \<le> K" "j0 - i0 < K - 2" by auto
  then show "2 \<le> i0" "i0 < j0" "j0 \<le> K" by auto
  from * show "(i0, j0) \<noteq> (2, K)" by auto
next
  assume "\<exists>d \<in> set ds. acceptable K d"
  then show "tsp_Proposal K ds \<noteq> None" by (rule tsp_Proposal_returns)
qed

theorem tsp_Proposal_range_witness:
  "list_all (\<lambda>d. 2 \<le> fst d \<and> fst d \<le> 183 \<and> 2 \<le> snd d \<and> snd d \<le> 183)
     ([(5, 5), (2, 183), (40, 7)] :: (int \<times> int) list) \<and>
   tsp_Proposal 183 [(5, 5), (2, 183), (40, 7)] = Some (7, 40) \<and>
   (\<exists>d \<in> set ([(5, 5), (2, 183), (40, 7)] :: (int \<times> int) list). acceptable 183 d) \<and>
   (2 :: int) \<le> 7 \<and> (7 :: int) < 40 \<and> (40 :: int) \<le> 183 \<and> (7, 40) \<noteq> (2, 183 :: int)"
proof -
  have h: "\<forall>d \<in> set ([(5, 5), (2, 183), (40, 7)] :: (int \<times> int) list).
             2 \<le> fst d \<and> fst d \<le> 183 \<and> 2 \<le> snd d \<and> snd d \<le> 183"
    by simp
  have e: "tsp_Proposal 183 [(5, 5), (2, 183), (40, 7)] = Some (7, 40)"
    by (simp add: Let_def)
  have a: "\<exists>d \<in> set ([(5, 5), (2, 183), (40, 7)] :: (int \<times> int) list). acceptable 183 d"
    by (simp add: acceptable_def)
  from tsp_Proposal_range [OF h, of 7 40] e a h show ?thesis by simp
qed


section \<open>Symmetry of the clue flags\<close>

lemma Flip_effect:
  assumes "1 \<le> x0" "x0 \<le> 9" "1 \<le> y0" "y0 \<le> 9"
  shows "fst (Flip C x0 y0) x0 y0 = 1 - C x0 y0"
    and "fst (Flip C x0 y0) (10 - x0) (10 - y0) = 1 - C (10 - x0) (10 - y0)"
    and "(x, y) \<noteq> (x0, y0) \<Longrightarrow> (x, y) \<noteq> (10 - x0, 10 - y0) \<Longrightarrow> fst (Flip C x0 y0) x y = C x y"
proof -
  have r: "10 - x0 = x0 \<longleftrightarrow> x0 = 5" "10 - y0 = y0 \<longleftrightarrow> y0 = 5"
    using assms by auto
  show "fst (Flip C x0 y0) x0 y0 = 1 - C x0 y0"
    using r by (auto simp: Flip_def Let_def update2_def)
  show "fst (Flip C x0 y0) (10 - x0) (10 - y0) = 1 - C (10 - x0) (10 - y0)"
    using r by (auto simp: Flip_def Let_def update2_def)
  show "fst (Flip C x0 y0) x y = C x y"
    if "(x, y) \<noteq> (x0, y0)" "(x, y) \<noteq> (10 - x0, 10 - y0)"
    using that by (auto simp: Flip_def Let_def update2_def)
qed

lemma Flip_symmetric:
  assumes "symmetric C" "1 \<le> x0" "x0 \<le> 9" "1 \<le> y0" "y0 \<le> 9"
  shows "symmetric (fst (Flip C x0 y0))"
  unfolding symmetric_def
proof (intro ballI)
  fix x y :: nat
  assume xy: "x \<in> {1 .. 9}" "y \<in> {1 .. 9}"
  then have inv: "10 - (10 - x) = x" "10 - (10 - y) = y" by auto
  from assms(1) xy have sym: "C x y = C (10 - x) (10 - y)" by (simp add: symmetric_def)
  consider "(x, y) = (x0, y0)" | "(x, y) = (10 - x0, 10 - y0)"
    | "(x, y) \<noteq> (x0, y0)" "(x, y) \<noteq> (10 - x0, 10 - y0)" by blast
  then show "fst (Flip C x0 y0) x y = fst (Flip C x0 y0) (10 - x) (10 - y)"
  proof cases
    case 1
    with Flip_effect(1,2) [OF assms(2-5), of C] sym show ?thesis by simp
  next
    case 2
    then have "10 - x = x0" "10 - y = y0" using assms(2-5) by auto
    with 2 Flip_effect(1,2) [OF assms(2-5), of C] sym show ?thesis by simp
  next
    case 3
    from 3 inv have "(10 - x, 10 - y) \<noteq> (x0, y0)" "(10 - x, 10 - y) \<noteq> (10 - x0, 10 - y0)"
      using xy assms(2-5) by auto
    with 3 Flip_effect(3) [OF assms(2-5), of _ _ C] sym show ?thesis by simp
  qed
qed

lemma flips_symmetric:
  assumes "symmetric C" "\<forall>p \<in> set ps. 1 \<le> fst p \<and> fst p \<le> 9 \<and> 1 \<le> snd p \<and> snd p \<le> 9"
  shows "symmetric (flips C ps)"
  using assms
proof (induction ps arbitrary: C)
  case Nil
  then show ?case by (simp add: flips_def)
next
  case (Cons p ps)
  obtain x y where p: "p = (x, y)" by (cases p)
  with Cons.prems have "symmetric (fst (Flip C x y))"
    by (intro Flip_symmetric) auto
  with Cons.IH [of "fst (Flip C x y)"] Cons.prems(2) p show ?case
    by (simp add: flips_def)
qed

text \<open>
  C6.  \<^verbatim>\<open>Flip (x0, y0)\<close> toggles the flag of site (x0, y0) and the flag of its reflection
  (10 - x0, 10 - y0), which is the same single site when (x0, y0) = (5, 5), and leaves
  all other flags alone.  Starting from the grid in which every site is a clue, after any
  sequence of flips of sites of the grid the flags satisfy \<open>C x y = C (10 - x) (10 - y)\<close>
  for all sites.
\<close>

theorem clue_flags_symmetric:
  "(1 \<le> x0 \<and> x0 \<le> 9 \<and> 1 \<le> y0 \<and> y0 \<le> 9 \<longrightarrow>
      fst (Flip C x0 y0) x0 y0 = 1 - C x0 y0 \<and>
      fst (Flip C x0 y0) (10 - x0) (10 - y0) = 1 - C (10 - x0) (10 - y0) \<and>
      (\<forall>x y. (x, y) \<noteq> (x0, y0) \<and> (x, y) \<noteq> (10 - x0, 10 - y0) \<longrightarrow> fst (Flip C x0 y0) x y = C x y)) \<and>
   ((\<forall>p \<in> set ps. 1 \<le> fst p \<and> fst p \<le> 9 \<and> 1 \<le> snd p \<and> snd p \<le> 9) \<longrightarrow>
      symmetric (flips all_clues ps))"
proof (intro conjI impI allI)
  assume r: "1 \<le> x0 \<and> x0 \<le> 9 \<and> 1 \<le> y0 \<and> y0 \<le> 9"
  then show "fst (Flip C x0 y0) x0 y0 = 1 - C x0 y0"
    and "fst (Flip C x0 y0) (10 - x0) (10 - y0) = 1 - C (10 - x0) (10 - y0)"
    using Flip_effect(1,2) [of x0 y0 C] by simp_all
  show "fst (Flip C x0 y0) x y = C x y"
    if "(x, y) \<noteq> (x0, y0) \<and> (x, y) \<noteq> (10 - x0, 10 - y0)" for x y
    using r that Flip_effect(3) [of x0 y0 x y C] by simp
next
  assume "\<forall>p \<in> set ps. 1 \<le> fst p \<and> fst p \<le> 9 \<and> 1 \<le> snd p \<and> snd p \<le> 9"
  moreover have "symmetric all_clues" by (simp add: symmetric_def all_clues_def)
  ultimately show "symmetric (flips all_clues ps)" by (intro flips_symmetric)
qed

theorem clue_flags_symmetric_witness:
  "fst (Flip all_clues 3 7) 3 7 = 0 \<and> fst (Flip all_clues 3 7) 7 3 = 0 \<and>
   fst (Flip all_clues 3 7) 5 5 = 1 \<and> fst (Flip all_clues 5 5) 5 5 = 0 \<and>
   symmetric (flips all_clues [(3, 7), (5, 5), (2, 9), (3, 7)])"
proof -
  have "fst (Flip all_clues 3 7) 3 7 = 0 \<and> fst (Flip all_clues 3 7) 7 3 = 0 \<and>
        fst (Flip all_clues 3 7) 5 5 = 1"
    using clue_flags_symmetric [of 3 7 all_clues "[]"] by (simp add: all_clues_def)
  moreover have "fst (Flip all_clues 5 5) 5 5 = 0"
    using clue_flags_symmetric [of 5 5 all_clues "[]"] by (simp add: all_clues_def)
  moreover have "symmetric (flips all_clues [(3, 7), (5, 5), (2, 9), (3, 7)])"
    using clue_flags_symmetric [of 3 7 all_clues "[(3, 7), (5, 5), (2, 9), (3, 7)]"] by simp
  ultimately show ?thesis by blast
qed


section \<open>The uniqueness test: the trail and its candidates\<close>

lemma grid_list_set: "set grid_list = sites"
  by (auto simp: grid_list_def sites_def)

lemma card_sites: "card sites = 81"
  by (simp add: sites_def)

lemma Consistent_iff:
  "Consistent st x y v k \<longleftrightarrow> (\<forall>i \<in> {1 .. k}. val_of st i = v \<longrightarrow> \<not> shares (cell_of st i) (x, y))"
  by (auto simp: Consistent_def Let_def list_all_iff val_of_def shares_def cell_of_def)

lemma block_split:
  fixes u u' w w' :: nat
  assumes "u < 3" "u' < 3" "u + 3 * w = u' + 3 * w'"
  shows "u = u' \<and> w = w'"
  using assms by arith

lemma shares_adj:
  assumes "p \<in> sites" "q \<in> sites" "p \<noteq> q" "shares p q"
  shows "adj p q"
proof -
  obtain a b where p: "p = (a, b)" by (cases p)
  obtain c d where q: "q = (c, d)" by (cases q)
  from assms(1,2) p q have r: "1 \<le> a" "a < 10" "1 \<le> b" "b < 10" "1 \<le> c" "c < 10" "1 \<le> d" "d < 10"
    by (auto simp: sites_def)
  then have lt: "(a - 1) div 3 < 3" "(c - 1) div 3 < 3" by auto
  have blk: "(a - 1) div 3 = (c - 1) div 3 \<and> (b - 1) div 3 = (d - 1) div 3"
    if "(a - 1) div 3 + 3 * ((b - 1) div 3) = (c - 1) div 3 + 3 * ((d - 1) div 3)"
    using block_split [OF lt that] by simp
  from assms(3,4) p q blk show ?thesis
    by (auto simp: shares_def adj_def)
qed

lemma adj_shares: "adj p q \<Longrightarrow> shares p q"
  by (auto simp: shares_def adj_def)

lemma count_candidates: "count_consistent st x y = length (candidates st x y)"
  by (simp add: count_consistent_def candidates_def)

lemma length_candidates_le: "length (candidates st x y) \<le> 9"
proof -
  have "length (candidates st x y) \<le> length [1 .. 9 :: int]"
    unfolding candidates_def by (rule length_filter_le)
  then show ?thesis by simp
qed

lemma distinct_candidates: "distinct (candidates st x y)"
  by (simp add: candidates_def)

lemma set_candidates:
  "set (candidates st x y) = {v. 1 \<le> v \<and> v \<le> 9 \<and> Consistent st x y v (istar st)}"
  by (auto simp: candidates_def)

section \<open>The scan for a free cell with the fewest candidates\<close>

lemma scan_None:
  assumes "scan st ps acc = None" "fst acc \<noteq> 0"
  shows "\<exists>p \<in> set ps. \<not> Gtilde st (fst p) (snd p) \<and> count_consistent st (fst p) (snd p) = 0"
  using assms
proof (induction ps arbitrary: acc)
  case Nil
  then show ?case by simp
next
  case (Cons p ps)
  obtain x y where p: "p = (x, y)" by (cases p)
  obtain mp rp cp where acc: "acc = (mp, rp, cp)" by (cases acc)
  show ?case
  proof (cases "Gtilde st x y")
    case True
    with Cons p acc have "\<exists>p \<in> set ps. \<not> Gtilde st (fst p) (snd p) \<and> count_consistent st (fst p) (snd p) = 0"
      by simp
    then show ?thesis by auto
  next
    case False
    let ?m0 = "count_consistent st x y"
    let ?acc = "if ?m0 < mp then (?m0, x, y) else (mp, rp, cp)"
    show ?thesis
    proof (cases "fst ?acc = 0")
      case True
      with Cons.prems(2) acc have "?m0 = 0" by (auto split: if_splits)
      with False p show ?thesis by auto
    next
      case nz: False
      with Cons.prems(1) False p acc have "scan st ps ?acc = None"
        by (simp add: Let_def)
      from Cons.IH [OF this nz] show ?thesis by auto
    qed
  qed
qed

lemma scan_Some:
  assumes "scan st ps (mp0, rp0, cp0) = Some (mp, rp, cp)"
  shows "(\<forall>p \<in> set ps. \<not> Gtilde st (fst p) (snd p) \<longrightarrow> mp \<le> count_consistent st (fst p) (snd p)) \<and>
         ((mp, rp, cp) = (mp0, rp0, cp0) \<or>
          (rp, cp) \<in> set ps \<and> \<not> Gtilde st rp cp \<and> mp = count_consistent st rp cp \<and> mp < mp0)"
  using assms
proof (induction ps arbitrary: mp0 rp0 cp0)
  case Nil
  then show ?case by simp
next
  case (Cons p ps)
  obtain x y where p: "p = (x, y)" by (cases p)
  show ?case
  proof (cases "Gtilde st x y")
    case True
    with Cons.prems p have "scan st ps (mp0, rp0, cp0) = Some (mp, rp, cp)" by simp
    from Cons.IH [OF this] True p show ?thesis by auto
  next
    case False
    let ?m0 = "count_consistent st x y"
    show ?thesis
    proof (cases "?m0 < mp0")
      case True
      with Cons.prems False p have "scan st ps (?m0, x, y) = Some (mp, rp, cp)"
        by (simp add: Let_def split: if_splits)
      from Cons.IH [OF this] True False p show ?thesis by auto
    next
      case ge: False
      with Cons.prems False p have "scan st ps (mp0, rp0, cp0) = Some (mp, rp, cp)"
        by (simp add: Let_def split: if_splits)
      from Cons.IH [OF this] ge False p show ?thesis by auto
    qed
  qed
qed

lemma scan_Some_nonzero:
  assumes "scan st ps acc = Some acc'" "fst acc \<noteq> 0"
  shows "fst acc' \<noteq> 0"
  using assms
proof (induction ps arbitrary: acc)
  case Nil
  then show ?case by simp
next
  case (Cons p ps)
  obtain x y where p: "p = (x, y)" by (cases p)
  obtain mp rp cp where acc: "acc = (mp, rp, cp)" by (cases acc)
  show ?case
  proof (cases "Gtilde st x y")
    case True
    with Cons p acc show ?thesis by simp
  next
    case False
    let ?m0 = "count_consistent st x y"
    let ?acc = "if ?m0 < mp then (?m0, x, y) else (mp, rp, cp)"
    from Cons.prems(1) False p acc have nz: "fst ?acc \<noteq> 0" and "scan st ps ?acc = Some acc'"
      by (auto simp: Let_def split: if_splits)
    from Cons.IH [OF this(2) nz] show ?thesis .
  qed
qed

text \<open>What the search of a free site returns when a free site exists.\<close>

lemma scan_grid:
  assumes "scan st grid_list (10, 0, 0) = Some (mp, rp, cp)"
      and "\<exists>p \<in> sites. \<not> Gtilde st (fst p) (snd p)"
  shows "(rp, cp) \<in> sites" "\<not> Gtilde st rp cp" "mp = length (candidates st rp cp)" "1 \<le> mp" "mp \<le> 9"
    and "\<forall>p \<in> sites. \<not> Gtilde st (fst p) (snd p) \<longrightarrow> mp \<le> length (candidates st (fst p) (snd p))"
proof -
  from scan_Some [OF assms(1)]
  have min: "\<forall>p \<in> sites. \<not> Gtilde st (fst p) (snd p) \<longrightarrow> mp \<le> count_consistent st (fst p) (snd p)"
    and alt: "(mp, rp, cp) = (10, 0, 0) \<or>
          (rp, cp) \<in> sites \<and> \<not> Gtilde st rp cp \<and> mp = count_consistent st rp cp \<and> mp < 10"
    by (simp_all add: grid_list_set)
  from assms(2) obtain p where p: "p \<in> sites" "\<not> Gtilde st (fst p) (snd p)" by blast
  with min have "mp \<le> count_consistent st (fst p) (snd p)" by blast
  with length_candidates_le [of st "fst p" "snd p"] have le9: "mp \<le> 9"
    by (simp add: count_candidates)
  with alt have *: "(rp, cp) \<in> sites" "\<not> Gtilde st rp cp" "mp = count_consistent st rp cp"
    by auto
  from scan_Some_nonzero [OF assms(1)] have "1 \<le> mp" by simp
  with * le9 min
  show "(rp, cp) \<in> sites" "\<not> Gtilde st rp cp" "mp = length (candidates st rp cp)" "1 \<le> mp" "mp \<le> 9"
    "\<forall>p \<in> sites. \<not> Gtilde st (fst p) (snd p) \<longrightarrow> mp \<le> length (candidates st (fst p) (snd p))"
    by (simp_all add: count_candidates)
qed

lemma scan_grid_None:
  assumes "scan st grid_list (10, 0, 0) = None"
  shows "\<exists>p \<in> sites. \<not> Gtilde st (fst p) (snd p) \<and> candidates st (fst p) (snd p) = []"
  using scan_None [OF assms] by (simp add: grid_list_set count_candidates)

section \<open>The candidate list that Advance writes\<close>

lemma Consistent_cong:
  assumes "\<forall>i \<le> k. r_arr st' i = r_arr st i \<and> c_arr st' i = c_arr st i \<and>
              m_arr st' i = m_arr st i \<and> n_arr st' i = n_arr st i"
  shows "Consistent st' x y v k = Consistent st x y v k"
  using assms by (simp add: Consistent_iff val_of_def cell_of_def)

lemma fill_loop_fields:
  "r_arr (fill_loop rp cp vs j st) = r_arr st \<and> c_arr (fill_loop rp cp vs j st) = c_arr st \<and>
   m_arr (fill_loop rp cp vs j st) = m_arr st \<and> Gtilde (fill_loop rp cp vs j st) = Gtilde st \<and>
   istar (fill_loop rp cp vs j st) = istar st \<and> Csize (fill_loop rp cp vs j st) = Csize st"
  by (induction rp cp vs j st rule: fill_loop.induct) auto

lemma fill_loop_n:
  assumes "0 < istar st" and "\<forall>w. Consistent st rp cp w (istar st - 1) = Q w"
  shows "(\<forall>i. i \<noteq> istar st \<longrightarrow> n_arr (fill_loop rp cp vs j st) i = n_arr st i) \<and>
         (\<forall>t \<le> j. n_arr (fill_loop rp cp vs j st) (istar st) t = n_arr st (istar st) t) \<and>
         (\<forall>t < length (filter Q vs). n_arr (fill_loop rp cp vs j st) (istar st) (j + 1 + t) = filter Q vs ! t)"
  using assms
proof (induction rp cp vs j st rule: fill_loop.induct)
  case (1 rprime cprime j st)
  then show ?case by simp
next
  case (2 rprime cprime v vs j st)
  show ?case
  proof (cases "Q v")
    case False
    with 2 show ?thesis by simp
  next
    case True
    let ?st' = "st\<lparr>n_arr := update2 (n_arr st) (istar st) (j + 1) v\<rparr>"
    have C: "Consistent st rprime cprime v (istar st - 1)"
      using True "2.prems"(2) by simp
    have same: "\<forall>w. Consistent ?st' rprime cprime w (istar ?st' - 1) = Q w"
    proof
      fix w
      have "\<forall>i \<le> istar st - 1. r_arr ?st' i = r_arr st i \<and> c_arr ?st' i = c_arr st i \<and>
              m_arr ?st' i = m_arr st i \<and> n_arr ?st' i = n_arr st i"
        using "2.prems"(1) by (auto simp: update2_def)
      from Consistent_cong [OF this] "2.prems"(2)
      show "Consistent ?st' rprime cprime w (istar ?st' - 1) = Q w" by simp
    qed
    have pos: "0 < istar ?st'" using "2.prems"(1) by simp
    from "2.IH"(1) [OF C pos same]
    have IH: "(\<forall>i. i \<noteq> istar st \<longrightarrow> n_arr (fill_loop rprime cprime vs (j + 1) ?st') i = n_arr ?st' i)"
      "(\<forall>t \<le> j + 1. n_arr (fill_loop rprime cprime vs (j + 1) ?st') (istar st) t = n_arr ?st' (istar st) t)"
      "(\<forall>t < length (filter Q vs).
             n_arr (fill_loop rprime cprime vs (j + 1) ?st') (istar st) (j + 1 + 1 + t) = filter Q vs ! t)"
      by simp_all
    have fl: "fill_loop rprime cprime (v # vs) j st = fill_loop rprime cprime vs (j + 1) ?st'"
      using C by simp
    show ?thesis
      unfolding fl
    proof (intro conjI allI impI)
      fix i assume "i \<noteq> istar st"
      with IH(1) show "n_arr (fill_loop rprime cprime vs (j + 1) ?st') i = n_arr st i"
        by (simp add: update2_def)
    next
      fix t assume "t \<le> j"
      with IH(2) show "n_arr (fill_loop rprime cprime vs (j + 1) ?st') (istar st) t = n_arr st (istar st) t"
        by (simp add: update2_def)
    next
      fix t assume t: "t < length (filter Q (v # vs))"
      show "n_arr (fill_loop rprime cprime vs (j + 1) ?st') (istar st) (j + 1 + t) = filter Q (v # vs) ! t"
      proof (cases t)
        case 0
        with IH(2) True show ?thesis by (simp add: update2_def)
      next
        case (Suc t')
        with t True have "t' < length (filter Q vs)" by simp
        with IH(3) Suc True show ?thesis by simp
      qed
    qed
  qed
qed

section \<open>Advance and Retreat, case by case\<close>

lemma struct_inv_free:
  assumes "struct_inv st" "istar st < 81"
  shows "\<exists>p \<in> sites. \<not> Gtilde st (fst p) (snd p)"
proof (rule ccontr)
  assume "\<not> ?thesis"
  with assms(1) have "sites \<subseteq> cell_of st ` {1 .. istar st}"
    by (auto simp: struct_inv_def)
  then have "card sites \<le> card (cell_of st ` {1 .. istar st})"
    by (intro card_mono) auto
  also have "\<dots> \<le> card {1 .. istar st}" by (rule card_image_le) simp
  finally show False using assms(2) by (simp add: card_sites)
qed

lemma candidates_cong:
  assumes "\<forall>i \<le> istar st. r_arr st' i = r_arr st i \<and> c_arr st' i = c_arr st i \<and>
              m_arr st' i = m_arr st i \<and> n_arr st' i = n_arr st i"
  shows "filter (\<lambda>v. Consistent st' x y v (istar st)) [1 .. 9] = candidates st x y"
  unfolding candidates_def using Consistent_cong [OF assms] by simp

lemma Advance_cases [consumes 1, case_names full dead push]:
  assumes "struct_inv st"
  obtains "istar st = 81" "Advance st = (0, st)"
  | "istar st < 81" "Advance st = (2, st)"
    "\<exists>p \<in> sites. \<not> Gtilde st (fst p) (snd p) \<and> candidates st (fst p) (snd p) = []"
  | rp cp st' where "istar st < 81" "Advance st = (1, st')" "(rp, cp) \<in> sites" "\<not> Gtilde st rp cp"
      "\<forall>p \<in> sites. \<not> Gtilde st (fst p) (snd p)
          \<longrightarrow> length (candidates st rp cp) \<le> length (candidates st (fst p) (snd p))"
      "candidates st rp cp \<noteq> []"
      "istar st' = istar st + 1" "Csize st' = Csize st"
      "r_arr st' = (r_arr st)(istar st + 1 := rp)" "c_arr st' = (c_arr st)(istar st + 1 := cp)"
      "m_arr st' = (m_arr st)(istar st + 1 := length (candidates st rp cp))"
      "Gtilde st' = update2 (Gtilde st) rp cp True"
      "\<forall>i. i \<noteq> istar st + 1 \<longrightarrow> n_arr st' i = n_arr st i"
      "\<forall>t < length (candidates st rp cp). n_arr st' (istar st + 1) (t + 1) = candidates st rp cp ! t"
proof (cases "istar st = 81")
  case True
  then have "Advance st = (0, st)" by (simp add: Advance_def)
  with True that(1) show ?thesis by blast
next
  case False
  with assms have lt: "istar st < 81" by (simp add: struct_inv_def)
  show ?thesis
  proof (cases "scan st grid_list (10, 0, 0)")
    case None
    from scan_grid_None [OF None] lt False None that(2) show ?thesis
      by (simp add: Advance_def)
  next
    case (Some acc)
    obtain mp rp cp where acc: "acc = (mp, rp, cp)" by (cases acc)
    note sc = scan_grid [OF Some [unfolded acc] struct_inv_free [OF assms lt]]
    define st1 where "st1 = st\<lparr>istar := istar st + 1\<rparr>"
    define st2 where "st2 = fill_loop rp cp [1 .. 9] 0 st1"
    define st' where "st' = st2\<lparr>r_arr := (r_arr st2)(istar st2 := rp),
                           c_arr := (c_arr st2)(istar st2 := cp),
                           m_arr := (m_arr st2)(istar st2 := mp),
                           Gtilde := update2 (Gtilde st2) rp cp True\<rparr>"
    have A: "Advance st = (1, st')"
      using False Some acc by (simp add: Advance_def Let_def st'_def st2_def st1_def)
    have f: "r_arr st2 = r_arr st" "c_arr st2 = c_arr st" "m_arr st2 = m_arr st"
      "Gtilde st2 = Gtilde st" "istar st2 = istar st + 1" "Csize st2 = Csize st"
      using fill_loop_fields [of rp cp "[1 .. 9]" 0 st1] by (simp_all add: st2_def st1_def)
    have Q: "\<forall>w. Consistent st1 rp cp w (istar st1 - 1) = Consistent st rp cp w (istar st)"
    proof
      fix w
      have "\<forall>i \<le> istar st. r_arr st1 i = r_arr st i \<and> c_arr st1 i = c_arr st i \<and>
              m_arr st1 i = m_arr st i \<and> n_arr st1 i = n_arr st i"
        by (simp add: st1_def)
      from Consistent_cong [OF this]
      show "Consistent st1 rp cp w (istar st1 - 1) = Consistent st rp cp w (istar st)"
        by (simp add: st1_def)
    qed
    have pos: "0 < istar st1" by (simp add: st1_def)
    from fill_loop_n [OF pos Q, of "[1 .. 9]" 0]
    have n1: "\<forall>i. i \<noteq> istar st + 1 \<longrightarrow> n_arr st2 i = n_arr st i"
      and n2: "\<forall>t < length (candidates st rp cp). n_arr st2 (istar st + 1) (t + 1) = candidates st rp cp ! t"
      by (simp_all add: st2_def candidates_def st1_def)
    show ?thesis
    proof (rule that(3) [where rp = rp and cp = cp and st' = st'])
      show "istar st < 81" by (rule lt)
      show "Advance st = (1, st')" by (rule A)
      show "(rp, cp) \<in> sites" "\<not> Gtilde st rp cp" by (rule sc)+
      show "\<forall>p \<in> sites. \<not> Gtilde st (fst p) (snd p)
          \<longrightarrow> length (candidates st rp cp) \<le> length (candidates st (fst p) (snd p))"
        using sc(3,6) by simp
      show "candidates st rp cp \<noteq> []" using sc(3,4) by auto
      show "istar st' = istar st + 1" "Csize st' = Csize st" by (simp_all add: st'_def f)
      show "r_arr st' = (r_arr st)(istar st + 1 := rp)" "c_arr st' = (c_arr st)(istar st + 1 := cp)"
        "m_arr st' = (m_arr st)(istar st + 1 := length (candidates st rp cp))"
        "Gtilde st' = update2 (Gtilde st) rp cp True"
        using sc(3) by (simp_all add: st'_def f)
      show "\<forall>i. i \<noteq> istar st + 1 \<longrightarrow> n_arr st' i = n_arr st i"
        using n1 by (simp add: st'_def)
      show "\<forall>t < length (candidates st rp cp). n_arr st' (istar st + 1) (t + 1) = candidates st rp cp ! t"
        using n2 by (simp add: st'_def)
    qed
  qed
qed

lemma Retreat_cases [case_names fin dec pop]:
  obtains "istar st = Csize st" "Retreat st = (0, st)"
  | "istar st \<noteq> Csize st" "1 < m_arr st (istar st)"
    "Retreat st = (1, st\<lparr>m_arr := (m_arr st)(istar st := m_arr st (istar st) - 1)\<rparr>)"
  | "istar st \<noteq> Csize st" "m_arr st (istar st) \<le> 1"
    "Retreat st = (2, st\<lparr>Gtilde := update2 (Gtilde st) (r_arr st (istar st)) (c_arr st (istar st)) False,
                          istar := istar st - 1\<rparr>)"
  by (cases "istar st = Csize st"; cases "1 < m_arr st (istar st)") (auto simp: Retreat_def)

section \<open>The structural invariant\<close>

lemma atLeastAtMost_Suc_insert: "{1 .. Suc k} = insert (Suc k) {1 .. k}"
  by auto

lemma Advance_struct:
  assumes "struct_inv st"
  shows "struct_inv (snd (Advance st))"
  using assms
proof (cases rule: Advance_cases)
  case full
  with assms show ?thesis by simp
next
  case dead
  with assms show ?thesis by simp
next
  case (push rp cp st')
  let ?k = "istar st"
  have cell: "cell_of st' i = (if i = ?k + 1 then (rp, cp) else cell_of st i)" for i
    by (simp add: cell_of_def push(9,10))
  have old: "cell_of st' ` {1 .. ?k} = cell_of st ` {1 .. ?k}"
    by (rule image_cong) (simp_all add: cell)
  from assms have S: "Csize st \<le> ?k" "\<forall>i \<in> {1 .. ?k}. cell_of st i \<in> sites"
    "inj_on (cell_of st) {1 .. ?k}"
    "\<forall>p \<in> sites. Gtilde st (fst p) (snd p) \<longleftrightarrow> p \<in> cell_of st ` {1 .. ?k}"
    "\<forall>i \<in> {Csize st <.. ?k}. 1 \<le> m_arr st i"
    by (simp_all add: struct_inv_def)
  from S(4) [rule_format, OF push(3)] push(4) have fresh: "(rp, cp) \<notin> cell_of st ` {1 .. ?k}"
    by simp
  have ins: "{1 .. ?k + 1} = insert (?k + 1) {1 .. ?k}" by auto
  have img: "cell_of st' ` {1 .. ?k + 1} = insert (rp, cp) (cell_of st ` {1 .. ?k})"
    unfolding ins image_insert old by (simp add: cell)
  have "inj_on (cell_of st') {1 .. ?k}"
    using S(3) by (rule inj_on_cong [THEN iffD1, rotated]) (simp add: cell)
  with fresh old have inj: "inj_on (cell_of st') {1 .. ?k + 1}"
    unfolding ins by (simp add: cell)
  have G: "\<forall>p \<in> sites. Gtilde st' (fst p) (snd p) \<longleftrightarrow> p \<in> cell_of st' ` {1 .. ?k + 1}"
  proof
    fix p assume p: "p \<in> sites"
    have "Gtilde st' (fst p) (snd p) \<longleftrightarrow> p = (rp, cp) \<or> Gtilde st (fst p) (snd p)"
      by (cases p) (auto simp: push(12) update2_def)
    with S(4) p show "Gtilde st' (fst p) (snd p) \<longleftrightarrow> p \<in> cell_of st' ` {1 .. ?k + 1}"
      unfolding img by auto
  qed
  have M: "\<forall>i \<in> {Csize st <.. ?k + 1}. 1 \<le> m_arr st' i"
    using S(5) push(6) by (auto simp: push(8,11) Suc_le_eq)
  have C: "\<forall>i \<in> {1 .. ?k + 1}. cell_of st' i \<in> sites"
    using S(2) push(3) by (auto simp: cell)
  from S(1) push(1) C inj G M have "struct_inv st'"
    unfolding struct_inv_def by (simp add: push(7,8))
  with push(2) show ?thesis by simp
qed

lemma Retreat_struct:
  assumes "struct_inv st"
  shows "struct_inv (snd (Retreat st))"
proof (cases st rule: Retreat_cases)
  case fin
  with assms show ?thesis by simp
next
  case dec
  let ?st' = "st\<lparr>m_arr := (m_arr st)(istar st := m_arr st (istar st) - 1)\<rparr>"
  have "cell_of ?st' = cell_of st" by (simp add: cell_of_def fun_eq_iff)
  with assms dec(2) have "struct_inv ?st'"
    by (auto simp: struct_inv_def)
  with dec(3) show ?thesis by simp
next
  case pop
  let ?k = "istar st"
  let ?st' = "st\<lparr>Gtilde := update2 (Gtilde st) (r_arr st ?k) (c_arr st ?k) False, istar := ?k - 1\<rparr>"
  from assms have S: "Csize st \<le> ?k" "?k \<le> 81" "\<forall>i \<in> {1 .. ?k}. cell_of st i \<in> sites"
    "inj_on (cell_of st) {1 .. ?k}"
    "\<forall>p \<in> sites. Gtilde st (fst p) (snd p) \<longleftrightarrow> p \<in> cell_of st ` {1 .. ?k}"
    "\<forall>i \<in> {Csize st <.. ?k}. 1 \<le> m_arr st i"
    by (simp_all add: struct_inv_def)
  from S(1) pop(1) have pos: "0 < ?k" "Csize st \<le> ?k - 1" by auto
  then have split: "{1 .. ?k} = insert ?k {1 .. ?k - 1}" by auto
  have cell: "cell_of ?st' = cell_of st" by (simp add: cell_of_def fun_eq_iff)
  have inj: "inj_on (cell_of st) {1 .. ?k - 1}"
    using S(4) by (rule inj_on_subset) auto
  have notin: "cell_of st ?k \<notin> cell_of st ` {1 .. ?k - 1}"
  proof
    assume "cell_of st ?k \<in> cell_of st ` {1 .. ?k - 1}"
    then obtain i where i: "i \<in> {1 .. ?k - 1}" "cell_of st i = cell_of st ?k" by auto
    with S(4) pos have "i = ?k" by (auto dest!: inj_onD [where x = i and y = ?k])
    with i(1) pos show False by auto
  qed
  have G: "\<forall>p \<in> sites. Gtilde ?st' (fst p) (snd p) \<longleftrightarrow> p \<in> cell_of st ` {1 .. ?k - 1}"
  proof
    fix p assume p: "p \<in> sites"
    have "Gtilde ?st' (fst p) (snd p) \<longleftrightarrow> p \<noteq> cell_of st ?k \<and> Gtilde st (fst p) (snd p)"
      by (cases p) (auto simp: update2_def cell_of_def)
    also have "\<dots> \<longleftrightarrow> p \<noteq> cell_of st ?k \<and> p \<in> insert (cell_of st ?k) (cell_of st ` {1 .. ?k - 1})"
      using S(5) p by (subst (asm) split) auto
    also have "\<dots> \<longleftrightarrow> p \<in> cell_of st ` {1 .. ?k - 1}"
      using notin by blast
    finally show "Gtilde ?st' (fst p) (snd p) \<longleftrightarrow> p \<in> cell_of st ` {1 .. ?k - 1}" .
  qed
  from S pos inj G have "struct_inv ?st'"
    unfolding struct_inv_def cell by auto
  with pop(3) show ?thesis by simp
qed

section \<open>Termination of the search\<close>

lemma sum_upto_split:
  fixes f :: "nat \<Rightarrow> nat"
  assumes "0 < k"
  shows "(\<Sum>i \<in> {1 .. k}. f i) = (\<Sum>i \<in> {1 .. k - 1}. f i) + f k"
proof -
  from assms have "{1 .. k} = insert k {1 .. k - 1}" by auto
  then show ?thesis using assms by simp
qed

lemma Advance_status: "struct_inv st \<Longrightarrow> fst (Advance st) \<le> 2"
  by (cases rule: Advance_cases) auto

lemma Retreat_status: "fst (Retreat st) \<le> 2"
  by (cases st rule: Retreat_cases) auto

lemma Advance_mu:
  assumes "struct_inv st" "fst (Advance st) \<noteq> 0"
  shows "mu (fst (Advance st)) (snd (Advance st)) < mu 1 st"
  using assms(1)
proof (cases rule: Advance_cases)
  case full
  with assms(2) show ?thesis by simp
next
  case dead
  from dead(1) have "(11 :: nat) ^ 1 \<le> 11 ^ (81 - istar st)"
    by (intro power_increasing) auto
  with dead(2) show ?thesis by (simp add: mu_def)
next
  case (push rp cp st')
  let ?k = "istar st"
  let ?V = "(11 :: nat) ^ (80 - ?k)"
  let ?mp = "length (candidates st rp cp)"
  have S: "(\<Sum>i \<in> {1 .. ?k + 1}. m_arr st' i * 11 ^ (81 - i))
             = (\<Sum>i \<in> {1 .. ?k}. m_arr st i * 11 ^ (81 - i)) + ?mp * ?V"
  proof -
    have "(\<Sum>i \<in> {1 .. ?k + 1}. m_arr st' i * 11 ^ (81 - i))
            = (\<Sum>i \<in> {1 .. ?k}. m_arr st' i * 11 ^ (81 - i)) + m_arr st' (?k + 1) * 11 ^ (81 - (?k + 1))"
      using sum_upto_split [of "?k + 1" "\<lambda>i. m_arr st' i * 11 ^ (81 - i)"] by simp
    also have "(\<Sum>i \<in> {1 .. ?k}. m_arr st' i * 11 ^ (81 - i)) = (\<Sum>i \<in> {1 .. ?k}. m_arr st i * 11 ^ (81 - i))"
      by (rule sum.cong) (simp_all add: push(11))
    finally show ?thesis by (simp add: push(11))
  qed
  from push(1) have "81 - ?k = Suc (80 - ?k)" by simp
  then have W: "(11 :: nat) ^ (81 - ?k) = 11 * ?V" by simp
  have V: "1 \<le> ?V" by simp
  have "?mp \<le> 9" by (rule length_candidates_le)
  then have "?mp * ?V \<le> 9 * ?V" by (rule mult_le_mono1)
  with V have "?mp * ?V + ?V < 11 * ?V" by linarith
  then have "mu 1 st' < mu 1 st"
    unfolding mu_def push(7) S W by simp
  with push(2) show ?thesis by simp
qed

lemma Retreat_mu:
  assumes "struct_inv st" "fst (Retreat st) \<noteq> 0"
  shows "mu (fst (Retreat st)) (snd (Retreat st)) < mu 2 st"
proof (cases st rule: Retreat_cases)
  case fin
  with assms(2) show ?thesis by simp
next
  case dec
  let ?k = "istar st"
  let ?W = "(11 :: nat) ^ (81 - ?k)"
  let ?st' = "st\<lparr>m_arr := (m_arr st)(?k := m_arr st ?k - 1)\<rparr>"
  from assms(1) dec(1) have pos: "0 < ?k" by (auto simp: struct_inv_def)
  have "(\<Sum>i \<in> {1 .. ?k - 1}. m_arr ?st' i * 11 ^ (81 - i)) = (\<Sum>i \<in> {1 .. ?k - 1}. m_arr st i * 11 ^ (81 - i))"
    using pos by (intro sum.cong) auto
  then have S': "(\<Sum>i \<in> {1 .. ?k}. m_arr ?st' i * 11 ^ (81 - i))
      = (\<Sum>i \<in> {1 .. ?k - 1}. m_arr st i * 11 ^ (81 - i)) + (m_arr st ?k - 1) * ?W"
    using sum_upto_split [OF pos, of "\<lambda>i. m_arr ?st' i * 11 ^ (81 - i)"] by simp
  have S: "(\<Sum>i \<in> {1 .. ?k}. m_arr st i * 11 ^ (81 - i))
      = (\<Sum>i \<in> {1 .. ?k - 1}. m_arr st i * 11 ^ (81 - i)) + m_arr st ?k * ?W"
    using sum_upto_split [OF pos, of "\<lambda>i. m_arr st i * 11 ^ (81 - i)"] by simp
  have W: "1 \<le> ?W" by simp
  from dec(2) have "m_arr st ?k * ?W = (m_arr st ?k - 1) * ?W + ?W"
    by (simp add: diff_mult_distrib)
  then have "mu 1 ?st' < mu 2 st"
    unfolding mu_def using S S' by simp
  with dec(3) show ?thesis by simp
next
  case pop
  let ?k = "istar st"
  let ?W = "(11 :: nat) ^ (81 - ?k)"
  let ?st' = "st\<lparr>Gtilde := update2 (Gtilde st) (r_arr st ?k) (c_arr st ?k) False, istar := ?k - 1\<rparr>"
  from assms(1) pop(1) have pos: "0 < ?k" and m: "1 \<le> m_arr st ?k"
    by (auto simp: struct_inv_def)
  have S: "(\<Sum>i \<in> {1 .. ?k}. m_arr st i * 11 ^ (81 - i))
      = (\<Sum>i \<in> {1 .. ?k - 1}. m_arr st i * 11 ^ (81 - i)) + m_arr st ?k * ?W"
    using sum_upto_split [OF pos, of "\<lambda>i. m_arr st i * 11 ^ (81 - i)"] by simp
  have "1 \<le> ?W" by simp
  with m have "1 \<le> m_arr st ?k * ?W" by (metis mult_le_mono nat_mult_1)
  then have "mu 2 ?st' < mu 2 st"
    unfolding mu_def using S by simp
  with pop(3) show ?thesis by simp
qed

text \<open>The loop ends, and an invariant of both steps holds when it has ended.\<close>

lemma search_rule:
  assumes adv: "\<And>st. I 1 st \<Longrightarrow> struct_inv st \<and> I (fst (Advance st)) (snd (Advance st))"
      and ret: "\<And>st. I 2 st \<Longrightarrow> struct_inv st \<and> I (fst (Retreat st)) (snd (Retreat st))"
      and "I status st" "status \<le> 2"
  shows "\<exists>st'. search status st = Some st' \<and> I 0 st'"
  using assms(3,4)
proof (induction "mu status st" arbitrary: status st rule: less_induct)
  case less
  consider "status = 0" | "status = 1" | "status = 2" using less.prems(2) by linarith
  then show ?case
  proof cases
    case 1
    with less.prems(1) show ?thesis by (simp add: search.simps)
  next
    case 2
    let ?a = "fst (Advance st)" and ?st' = "snd (Advance st)"
    from adv less.prems(1) 2 have si: "struct_inv st" and I': "I ?a ?st'" by auto
    have eq: "search status st = search ?a ?st'"
      using 2 by (subst search.simps) simp
    show ?thesis
    proof (cases "?a = 0")
      case True
      with I' eq show ?thesis by (simp add: search.simps)
    next
      case False
      from Advance_mu [OF si False] 2 have "mu ?a ?st' < mu status st" by simp
      from less.hyps [OF this I' Advance_status [OF si]] eq show ?thesis by simp
    qed
  next
    case 3
    let ?a = "fst (Retreat st)" and ?st' = "snd (Retreat st)"
    from ret less.prems(1) 3 have si: "struct_inv st" and I': "I ?a ?st'" by auto
    have eq: "search status st = search ?a ?st'"
      using 3 by (subst search.simps) simp
    show ?thesis
    proof (cases "?a = 0")
      case True
      with I' eq show ?thesis by (simp add: search.simps)
    next
      case False
      from Retreat_mu [OF si False] 3 have "mu ?a ?st' < mu status st" by simp
      from less.hyps [OF this I' Retreat_status] eq show ?thesis by simp
    qed
  qed
qed

lemma search_terminates:
  assumes "struct_inv st" "status \<le> 2"
  shows "\<exists>st'. search status st = Some st' \<and> struct_inv st'"
  using search_rule [of "\<lambda>_. struct_inv" status st] assms Advance_struct Retreat_struct
  by blast

section \<open>The initial state\<close>

lemma gs_loop_inv:
  assumes "distinct (dn @ ps)" "gs_inv C s dn i st"
  shows "gs_inv C s (dn @ ps) (fst (gs_loop C s ps i st)) (snd (gs_loop C s ps i st))"
  using assms
proof (induction ps arbitrary: dn i st)
  case Nil
  then show ?case by simp
next
  case (Cons p ps)
  obtain x y where p: "p = (x, y)" by (cases p)
  from Cons.prems(1) p have fresh: "(x, y) \<notin> set dn" and dist: "distinct ((dn @ [(x, y)]) @ ps)"
    by auto
  from Cons.prems(2) have I:
    "\<forall>j \<in> {1 .. i}. cell_of st j \<in> set dn \<and> m_arr st j = 1 \<and> n_arr st j 1 = s (r_arr st j) (c_arr st j)"
    "inj_on (cell_of st) {1 .. i}"
    "\<forall>p \<in> set dn. Gtilde st (fst p) (snd p) \<longleftrightarrow> p \<in> cell_of st ` {1 .. i}"
    "\<forall>p \<in> set dn. Gtilde st (fst p) (snd p) \<longleftrightarrow> C (fst p) (snd p) \<noteq> 0"
    "i \<le> length dn"
    unfolding gs_inv_def by blast+
  from I(1) fresh have notin: "(x, y) \<notin> cell_of st ` {1 .. i}" by auto
  show ?case
  proof (cases "C x y \<noteq> 0")
    case True
    let ?st1 = "st\<lparr>r_arr := (r_arr st)(i + 1 := x), c_arr := (c_arr st)(i + 1 := y),
                 m_arr := (m_arr st)(i + 1 := 1), n_arr := update2 (n_arr st) (i + 1) 1 (s x y),
                 Gtilde := update2 (Gtilde st) x y True\<rparr>"
    have cell: "cell_of ?st1 j = (if j = i + 1 then (x, y) else cell_of st j)" for j
      by (simp add: cell_of_def)
    have ins: "{1 .. i + 1} = insert (i + 1) {1 .. i}" by auto
    have old: "cell_of ?st1 ` {1 .. i} = cell_of st ` {1 .. i}"
      by (rule image_cong) (simp_all add: cell_of_def)
    have img: "cell_of ?st1 ` {1 .. i + 1} = insert (x, y) (cell_of st ` {1 .. i})"
      unfolding ins image_insert old by (simp add: cell_of_def)
    have "inj_on (cell_of ?st1) {1 .. i}"
      using I(2) by (rule inj_on_cong [THEN iffD1, rotated]) (simp add: cell_of_def)
    with notin old have inj: "inj_on (cell_of ?st1) {1 .. i + 1}"
      unfolding ins by (simp add: cell_of_def)
    have 1: "\<forall>j \<in> {1 .. i + 1}. cell_of ?st1 j \<in> set (dn @ [(x, y)]) \<and> m_arr ?st1 j = 1 \<and>
                n_arr ?st1 j 1 = s (r_arr ?st1 j) (c_arr ?st1 j)"
      using I(1) by (auto simp: update2_def cell_of_def)
    have 3: "\<forall>q \<in> set (dn @ [(x, y)]). Gtilde ?st1 (fst q) (snd q) \<longleftrightarrow> q \<in> cell_of ?st1 ` {1 .. i + 1}"
      unfolding img using I(3) fresh by (auto simp: update2_def)
    have 4: "\<forall>q \<in> set (dn @ [(x, y)]). Gtilde ?st1 (fst q) (snd q) \<longleftrightarrow> C (fst q) (snd q) \<noteq> 0"
      using I(4) fresh True by (auto simp: update2_def)
    from 1 inj 3 4 I(5) have "gs_inv C s (dn @ [(x, y)]) (i + 1) ?st1"
      unfolding gs_inv_def by simp
    from Cons.IH [OF dist this] True p show ?thesis by simp
  next
    case False
    let ?st1 = "st\<lparr>Gtilde := update2 (Gtilde st) x y False\<rparr>"
    have cell: "cell_of ?st1 = cell_of st" by (simp add: cell_of_def fun_eq_iff)
    have 1: "\<forall>j \<in> {1 .. i}. cell_of ?st1 j \<in> set (dn @ [(x, y)]) \<and> m_arr ?st1 j = 1 \<and>
                n_arr ?st1 j 1 = s (r_arr ?st1 j) (c_arr ?st1 j)"
      using I(1) by (auto simp: cell)
    have 3: "\<forall>q \<in> set (dn @ [(x, y)]). Gtilde ?st1 (fst q) (snd q) \<longleftrightarrow> q \<in> cell_of ?st1 ` {1 .. i}"
      unfolding cell using I(3) fresh notin by (auto simp: update2_def)
    have 4: "\<forall>q \<in> set (dn @ [(x, y)]). Gtilde ?st1 (fst q) (snd q) \<longleftrightarrow> C (fst q) (snd q) \<noteq> 0"
      using I(4) fresh False by (auto simp: update2_def)
    from 1 I(2) 3 4 I(5) have "gs_inv C s (dn @ [(x, y)]) i ?st1"
      unfolding gs_inv_def cell by simp
    from Cons.IH [OF dist this] False p show ?thesis by simp
  qed
qed

lemma distinct_grid_list: "distinct grid_list"
  unfolding grid_list_def
  by (rule distinct_concat) (auto simp: distinct_map inj_on_def)

lemma length_grid_list: "length grid_list = 81"
  by (simp add: grid_list_def length_concat comp_def sum_list_triv)

lemma GettingStarted_props:
  fixes C s st
  defines "st1 \<equiv> GettingStarted C s st"
  shows "struct_inv st1" "istar st1 = Csize st1"
    and "\<forall>j \<in> {1 .. Csize st1}. m_arr st1 j = 1 \<and> n_arr st1 j 1 = s (r_arr st1 j) (c_arr st1 j)"
    and "\<forall>p \<in> sites. C (fst p) (snd p) \<noteq> 0 \<longleftrightarrow> p \<in> cell_of st1 ` {1 .. Csize st1}"
proof -
  let ?i = "fst (gs_loop C s grid_list 0 st)" and ?st' = "snd (gs_loop C s grid_list 0 st)"
  have "gs_inv C s [] 0 st" by (simp add: gs_inv_def)
  with gs_loop_inv [of "[]" grid_list C s 0 st] distinct_grid_list
  have "gs_inv C s grid_list ?i ?st'" by simp
  then have I:
    "\<forall>j \<in> {1 .. ?i}. cell_of ?st' j \<in> sites \<and> m_arr ?st' j = 1 \<and> n_arr ?st' j 1 = s (r_arr ?st' j) (c_arr ?st' j)"
    "inj_on (cell_of ?st') {1 .. ?i}"
    "\<forall>p \<in> sites. Gtilde ?st' (fst p) (snd p) \<longleftrightarrow> p \<in> cell_of ?st' ` {1 .. ?i}"
    "\<forall>p \<in> sites. Gtilde ?st' (fst p) (snd p) \<longleftrightarrow> C (fst p) (snd p) \<noteq> 0"
    "?i \<le> 81"
    unfolding gs_inv_def grid_list_set length_grid_list by blast+
  have st1: "st1 = ?st'\<lparr>Csize := ?i, istar := ?i\<rparr>"
    by (simp add: st1_def GettingStarted_def case_prod_beta)
  have cell: "cell_of st1 = cell_of ?st'" by (simp add: st1 cell_of_def fun_eq_iff)
  show "struct_inv st1"
    unfolding struct_inv_def cell using I by (simp add: st1)
  show "istar st1 = Csize st1" by (simp add: st1)
  show "\<forall>j \<in> {1 .. Csize st1}. m_arr st1 j = 1 \<and> n_arr st1 j 1 = s (r_arr st1 j) (c_arr st1 j)"
    using I(1) by (simp add: st1)
  show "\<forall>p \<in> sites. C (fst p) (snd p) \<noteq> 0 \<longleftrightarrow> p \<in> cell_of st1 ` {1 .. Csize st1}"
    unfolding cell using I(3,4) by (simp add: st1)
qed

text \<open>
  C8: for every clue set \<open>C\<close>, every reference solution \<open>s\<close> and every content of the
  arrays when \<^verbatim>\<open>Unique\<close> is called, the first loop (begun in the Advance state on the
  trail of the clues) ends, the second loop (begun with a Retreat on the state the first
  one left) ends as well, and \<^verbatim>\<open>Unique\<close> returns.  The proof is by the measure \<open>mu\<close>: each
  cell has at most nine candidates, the trail has at most 81 entries, and every call of
  \<^verbatim>\<open>Advance\<close> or \<^verbatim>\<open>Retreat\<close> that does not end the loop makes \<open>mu\<close> smaller
  (\<open>Advance_mu\<close>, \<open>Retreat_mu\<close>).
\<close>

theorem search_halts:
  "\<exists>st1 st2. search 1 (GettingStarted C s st) = Some st1 \<and> search 2 st1 = Some st2 \<and>
              (\<exists>res. Unique C s st = Some res)"
proof -
  from search_terminates [OF GettingStarted_props(1), of 1 C s st]
  obtain st1 where 1: "search 1 (GettingStarted C s st) = Some st1" "struct_inv st1" by auto
  from search_terminates [OF 1(2), of 2]
  obtain st2 where 2: "search 2 st1 = Some st2" by auto
  from 1(1) 2 have "\<exists>res. Unique C s st = Some res" by (simp add: Unique_def)
  with 1(1) 2 show ?thesis by blast
qed


section \<open>No completion is lost\<close>

lemma follows_candidate:
  assumes "struct_inv st" "valid_grid g" "follows st (istar st) g" "p \<in> sites"
      and "\<not> Gtilde st (fst p) (snd p)"
  shows "g (fst p) (snd p) \<in> set (candidates st (fst p) (snd p))"
proof -
  let ?v = "g (fst p) (snd p)"
  from assms(2,4) have rng: "1 \<le> ?v" "?v \<le> 9" by (auto simp: valid_grid_def)
  have "\<not> shares (cell_of st i) (fst p, snd p)" if i: "i \<in> {1 .. istar st}" and v: "val_of st i = ?v" for i
  proof
    assume sh: "shares (cell_of st i) (fst p, snd p)"
    from assms(1) i have ci: "cell_of st i \<in> sites" by (simp add: struct_inv_def)
    from assms(1,4,5) have "p \<notin> cell_of st ` {1 .. istar st}" by (simp add: struct_inv_def)
    with i have ne: "cell_of st i \<noteq> p" by auto
    from shares_adj [OF ci assms(4) ne] sh have "adj (cell_of st i) p" by simp
    with assms(2) ci assms(4) have "g (fst (cell_of st i)) (snd (cell_of st i)) \<noteq> ?v"
      by (simp add: valid_grid_def)
    moreover from assms(3) i have "g (r_arr st i) (c_arr st i) = val_of st i"
      by (simp add: follows_def)
    ultimately show False using v by (simp add: cell_of_def)
  qed
  then have "Consistent st (fst p) (snd p) ?v (istar st)"
    by (simp add: Consistent_iff)
  with rng show ?thesis by (simp add: set_candidates)
qed

lemma follows_cong:
  assumes "\<forall>i \<in> {1 .. j}. r_arr st' i = r_arr st i \<and> c_arr st' i = c_arr st i \<and>
             m_arr st' i = m_arr st i \<and> n_arr st' i = n_arr st i"
  shows "follows st' j g = follows st j g"
  using assms by (simp add: follows_def val_of_def)

lemma follows_Suc:
  "follows st (Suc j) g \<longleftrightarrow> follows st j g \<and> g (r_arr st (Suc j)) (c_arr st (Suc j)) = val_of st (Suc j)"
  unfolding follows_def atLeastAtMost_Suc_insert by blast

lemma pending_last:
  assumes "Csize st \<le> istar st" "follows st (istar st) g"
      and "status = 1 \<or> (status = 0 \<and> istar st = 81)"
  shows "pending status st g"
  unfolding pending_def using assms by (intro exI [of _ "istar st"]) simp

lemma pending_branch:
  assumes "Csize st \<le> j" "j < istar st" "follows st j g"
      and "g (r_arr st (j + 1)) (c_arr st (j + 1)) \<in> untried st (j + 1)"
  shows "pending status st g"
  unfolding pending_def using assms by (intro exI [of _ j]) simp

lemma pending_cases [consumes 1, case_names last branch]:
  assumes "pending status st g"
  obtains "Csize st \<le> istar st" "follows st (istar st) g"
          "status = 1 \<or> (status = 0 \<and> istar st = 81)"
  | j where "Csize st \<le> j" "j < istar st" "follows st j g"
          "g (r_arr st (j + 1)) (c_arr st (j + 1)) \<in> untried st (j + 1)"
proof -
  from assms obtain j where j: "Csize st \<le> j" "j \<le> istar st" "follows st j g"
    "if j = istar st then status = 1 \<or> (status = 0 \<and> istar st = 81)
     else g (r_arr st (j + 1)) (c_arr st (j + 1)) \<in> untried st (j + 1)"
    unfolding pending_def by blast
  show thesis
  proof (cases "j = istar st")
    case True
    with j that(1) show thesis by simp
  next
    case False
    with j(2) have "j < istar st" by simp
    with j False that(2) [of j] show thesis by simp
  qed
qed

lemma search_inv_step:
  assumes "search_inv Sol P status st" "struct_inv st'"
      and "status' = 0 \<Longrightarrow> istar st' = 81 \<or> istar st' = Csize st'"
      and "\<And>g. valid_grid g \<Longrightarrow> pending status st g \<Longrightarrow> pending status' st' g"
  shows "search_inv Sol P status' st'"
  unfolding search_inv_def
proof (intro conjI allI impI)
  fix g assume "Sol g"
  with assms(1) have g: "valid_grid g" "P g \<or> pending status st g"
    by (simp_all add: search_inv_def)
  from g(1) show "valid_grid g" .
  from g assms(4) show "P g \<or> pending status' st' g" by blast
qed (use assms(2,3) in blast)+

lemma Advance_search_inv:
  assumes "search_inv Sol P 1 st"
  shows "search_inv Sol P (fst (Advance st)) (snd (Advance st))"
proof -
  from assms have si: "struct_inv st" by (simp add: search_inv_def)
  from si show ?thesis
  proof (cases rule: Advance_cases)
    case full
    have "pending 0 st g" if "pending 1 st g" for g
      using that
    proof (cases rule: pending_cases)
      case last
      with full(1) show ?thesis by (intro pending_last) simp_all
    next
      case (branch j)
      then show ?thesis by (rule pending_branch)
    qed
    then show ?thesis unfolding full(2) fst_conv snd_conv
      by (intro search_inv_step [OF assms si]) (simp_all add: full(1))
  next
    case dead
    have "pending 2 st g" if g: "pending 1 st g" "valid_grid g" for g
      using g(1)
    proof (cases rule: pending_cases)
      case last
      from dead(3) obtain p where p: "p \<in> sites" "\<not> Gtilde st (fst p) (snd p)"
          "candidates st (fst p) (snd p) = []" by blast
      from follows_candidate [OF si g(2) last(2) p(1,2)] p(3)
      show ?thesis by simp
    next
      case (branch j)
      then show ?thesis by (rule pending_branch)
    qed
    then show ?thesis unfolding dead(2) fst_conv snd_conv
      by (intro search_inv_step [OF assms si]) simp_all
  next
    case (push rp cp st')
    let ?k = "istar st"
    let ?cs = "candidates st rp cp"
    have keep: "\<forall>i \<in> {1 .. j}. r_arr st' i = r_arr st i \<and> c_arr st' i = c_arr st i \<and>
             m_arr st' i = m_arr st i \<and> n_arr st' i = n_arr st i" if "j \<le> ?k" for j
    proof
      fix i assume "i \<in> {1 .. j}"
      with that have "i \<noteq> ?k + 1" by simp
      with push(13) show "r_arr st' i = r_arr st i \<and> c_arr st' i = c_arr st i \<and>
             m_arr st' i = m_arr st i \<and> n_arr st' i = n_arr st i"
        unfolding push(9,10,11) by simp
    qed
    have new: "r_arr st' (?k + 1) = rp" "c_arr st' (?k + 1) = cp" "m_arr st' (?k + 1) = length ?cs"
      unfolding push(9,10,11) by simp_all
    have "pending 1 st' g" if g: "pending 1 st g" "valid_grid g" for g
      using g(1)
    proof (cases rule: pending_cases)
      case (branch j)
      from branch(2) have lt: "j + 1 \<le> ?k" by simp
      then have "j + 1 \<in> {1 .. j + 1}" by simp
      with keep [OF lt] have same: "r_arr st' (j + 1) = r_arr st (j + 1)"
        "c_arr st' (j + 1) = c_arr st (j + 1)" "m_arr st' (j + 1) = m_arr st (j + 1)"
        "n_arr st' (j + 1) = n_arr st (j + 1)" by blast+
      then have u: "untried st' (j + 1) = untried st (j + 1)" by (simp add: untried_def)
      from branch(2) have "j \<le> ?k" by simp
      from follows_cong [OF keep [OF this], of g] branch(3) have "follows st' j g" by simp
      moreover from branch(4) have "g (r_arr st' (j + 1)) (c_arr st' (j + 1)) \<in> untried st' (j + 1)"
        unfolding u same(1,2) .
      moreover from branch(1) have "Csize st' \<le> j" by (simp add: push(8))
      moreover from branch(2) have "j < istar st'" by (simp add: push(7))
      ultimately show ?thesis by (intro pending_branch)
    next
      case last
      note fk = last(2)
      from follows_candidate [OF si g(2) fk push(3)] push(4)
      have "g rp cp \<in> set ?cs" by simp
      then obtain t where t: "t < length ?cs" "?cs ! t = g rp cp"
        by (auto simp: in_set_conv_nth)
      with push(14) have nt: "n_arr st' (?k + 1) (t + 1) = g rp cp" by simp
      from fk follows_cong [OF keep [OF order_refl], of g] have fk': "follows st' ?k g" by simp
      have cs: "Csize st' \<le> ?k" using last(1) by (simp add: push(8))
      show ?thesis
      proof (cases "t + 1 = length ?cs")
        case True
        with nt new have "g (r_arr st' (Suc ?k)) (c_arr st' (Suc ?k)) = val_of st' (Suc ?k)"
          by (simp add: val_of_def)
        with fk' have "follows st' (Suc ?k) g" by (simp add: follows_Suc)
        then have "follows st' (istar st') g" by (simp add: push(7))
        moreover from cs have "Csize st' \<le> istar st'" by (simp add: push(7))
        ultimately show ?thesis by (intro pending_last) simp_all
      next
        case False
        with t(1) new(3) have "1 \<le> t + 1 \<and> t + 1 < m_arr st' (?k + 1)" by simp
        then have "n_arr st' (?k + 1) (t + 1) \<in> untried st' (?k + 1)"
          unfolding untried_def by (intro imageI) simp
        then have "g (r_arr st' (?k + 1)) (c_arr st' (?k + 1)) \<in> untried st' (?k + 1)"
          unfolding nt new .
        moreover have "?k < istar st'" by (simp add: push(7))
        ultimately show ?thesis using fk' cs by (intro pending_branch [of _ ?k])
      qed
    qed
    moreover from Advance_struct [OF si] push(2) have "struct_inv st'" by simp
    ultimately show ?thesis unfolding push(2) fst_conv snd_conv
      by (intro search_inv_step [OF assms]) simp_all
  qed
qed

lemma Retreat_search_inv:
  assumes "search_inv Sol P 2 st"
  shows "search_inv Sol P (fst (Retreat st)) (snd (Retreat st))"
proof -
  from assms have si: "struct_inv st" by (simp add: search_inv_def)
  have pd: "\<exists>j. Csize st \<le> j \<and> j < istar st \<and> follows st j g \<and>
               g (r_arr st (j + 1)) (c_arr st (j + 1)) \<in> untried st (j + 1)"
    if "pending 2 st g" for g
    using that by (cases rule: pending_cases) (simp, blast)
  show ?thesis
  proof (cases st rule: Retreat_cases)
    case fin
    have "\<not> pending 2 st g" for g using pd [of g] fin(1) by auto
    then show ?thesis unfolding fin(2) fst_conv snd_conv
      by (intro search_inv_step [OF assms si]) (simp_all add: fin(1))
  next
    case dec
    let ?k = "istar st"
    define st' where "st' = st\<lparr>m_arr := (m_arr st)(?k := m_arr st ?k - 1)\<rparr>"
    have f: "r_arr st' = r_arr st" "c_arr st' = c_arr st" "n_arr st' = n_arr st"
      "istar st' = ?k" "Csize st' = Csize st" "m_arr st' = (m_arr st)(?k := m_arr st ?k - 1)"
      by (simp_all add: st'_def)
    have "pending 1 st' g" if g: "pending 2 st g" for g
    proof -
      from pd [OF g] obtain j where j: "Csize st \<le> j" "j < ?k" "follows st j g"
        "g (r_arr st (j + 1)) (c_arr st (j + 1)) \<in> untried st (j + 1)" by blast
      from j(2) have "follows st' j g = follows st j g"
        by (intro follows_cong) (simp add: f)
      with j(3) have fj: "follows st' j g" by simp
      show ?thesis
      proof (cases "j + 1 = ?k")
        case False
        with j(2) have "untried st' (j + 1) = untried st (j + 1)" by (simp add: untried_def f)
        with j(4) have "g (r_arr st' (j + 1)) (c_arr st' (j + 1)) \<in> untried st' (j + 1)"
          by (simp add: f)
        with j(1,2) fj show ?thesis by (intro pending_branch [of _ j]) (simp_all add: f)
      next
        case True
        from j(4) obtain t where t: "1 \<le> t" "t < m_arr st ?k" "g (r_arr st ?k) (c_arr st ?k) = n_arr st ?k t"
          unfolding untried_def True by auto
        show ?thesis
        proof (cases "t = m_arr st ?k - 1")
          case True
          with t have "g (r_arr st' (Suc j)) (c_arr st' (Suc j)) = val_of st' (Suc j)"
            using \<open>j + 1 = ?k\<close> by (simp add: val_of_def f)
          with fj have "follows st' (Suc j) g" by (simp add: follows_Suc)
          with \<open>j + 1 = ?k\<close> have "follows st' (istar st') g" by (simp add: f)
          moreover from j(1,2) have "Csize st' \<le> istar st'" by (simp add: f)
          ultimately show ?thesis by (intro pending_last) simp_all
        next
          case False
          with t(1,2) have "1 \<le> t \<and> t < m_arr st' ?k" by (simp add: f)
          then have "n_arr st' ?k t \<in> untried st' ?k"
            unfolding untried_def by (intro imageI) simp
          with t(3) have "g (r_arr st' (j + 1)) (c_arr st' (j + 1)) \<in> untried st' (j + 1)"
            unfolding \<open>j + 1 = ?k\<close> by (simp add: f)
          with fj j(1,2) show ?thesis by (intro pending_branch [of _ j]) (simp_all add: f)
        qed
      qed
    qed
    moreover from Retreat_struct [OF si] dec(3) have "struct_inv st'" by (simp add: st'_def)
    ultimately show ?thesis unfolding dec(3) fst_conv snd_conv st'_def [symmetric]
      by (intro search_inv_step [OF assms]) simp_all
  next
    case pop
    let ?k = "istar st"
    define st' where "st' = st\<lparr>Gtilde := update2 (Gtilde st) (r_arr st ?k) (c_arr st ?k) False, istar := ?k - 1\<rparr>"
    have f: "r_arr st' = r_arr st" "c_arr st' = c_arr st" "n_arr st' = n_arr st"
      "istar st' = ?k - 1" "Csize st' = Csize st" "m_arr st' = m_arr st"
      by (simp_all add: st'_def)
    from pop(2) have empty: "untried st ?k = {}" by (auto simp: untried_def)
    have "pending 2 st' g" if g: "pending 2 st g" for g
    proof -
      from pd [OF g] obtain j where j: "Csize st \<le> j" "j < ?k" "follows st j g"
        "g (r_arr st (j + 1)) (c_arr st (j + 1)) \<in> untried st (j + 1)" by blast
      from j(4) empty have "j + 1 \<noteq> ?k" by auto
      with j(2) have lt: "j < ?k - 1" by simp
      have "follows st' j g = follows st j g" by (intro follows_cong) (simp add: f)
      moreover have "untried st' (j + 1) = untried st (j + 1)" by (simp add: untried_def f)
      ultimately show ?thesis using j lt
        by (intro pending_branch [of _ j]) (simp_all add: f)
    qed
    moreover from Retreat_struct [OF si] pop(3) have "struct_inv st'" by (simp add: st'_def)
    ultimately show ?thesis unfolding pop(3) fst_conv snd_conv st'_def [symmetric]
      by (intro search_inv_step [OF assms]) simp_all
  qed
qed

lemma search_complete:
  assumes "search_inv Sol P status st" "status \<le> 2"
  shows "\<exists>st'. search status st = Some st' \<and> search_inv Sol P 0 st'"
proof (rule search_rule [where I = "search_inv Sol P"])
  fix st' assume a: "search_inv Sol P 1 st'"
  then have "struct_inv st'" by (simp add: search_inv_def)
  with Advance_search_inv [OF a]
  show "struct_inv st' \<and> search_inv Sol P (fst (Advance st')) (snd (Advance st'))" by blast
next
  fix st' assume a: "search_inv Sol P 2 st'"
  then have "struct_inv st'" by (simp add: search_inv_def)
  with Retreat_search_inv [OF a]
  show "struct_inv st' \<and> search_inv Sol P (fst (Retreat st')) (snd (Retreat st'))" by blast
qed (use assms in blast)+

lemma trail_covers:
  assumes "struct_inv st" "istar st = 81"
  shows "cell_of st ` {1 .. 81} = sites"
proof (rule card_subset_eq)
  from assms show "cell_of st ` {1 .. 81} \<subseteq> sites" by (auto simp: struct_inv_def)
  from assms have "inj_on (cell_of st) {1 .. 81}" by (simp add: struct_inv_def)
  then have "card (cell_of st ` {1 .. 81}) = 81" by (simp add: card_image)
  then show "card (cell_of st ` {1 .. 81}) = card sites" by (simp add: card_sites)
qed (rule finite_sites)

lemma follows_full_unique:
  assumes "struct_inv st" "istar st = 81" "follows st 81 g" "follows st 81 h" "p \<in> sites"
  shows "g (fst p) (snd p) = h (fst p) (snd p)"
proof -
  from trail_covers [OF assms(1,2)] assms(5) have "p \<in> cell_of st ` {1 .. 81}" by simp
  then obtain i where i: "i \<in> {1 .. 81}" "cell_of st i = p" by blast
  from assms(3,4) i(1) have "g (r_arr st i) (c_arr st i) = h (r_arr st i) (c_arr st i)"
    by (simp add: follows_def)
  with i(2) show ?thesis by (auto simp: cell_of_def)
qed

lemma GettingStarted_search_inv:
  "search_inv (completion C s) (\<lambda>_. False) 1 (GettingStarted C s st)"
proof -
  let ?st = "GettingStarted C s st"
  note gs = GettingStarted_props [of C s st]
  have "pending 1 ?st g" if g: "completion C s g" for g
  proof (rule pending_last)
    show "Csize ?st \<le> istar ?st" by (simp add: gs(2))
    show "follows ?st (istar ?st) g"
      unfolding follows_def gs(2)
    proof
      fix i assume i: "i \<in> {1 .. Csize ?st}"
      with gs(1) have c: "cell_of ?st i \<in> sites" by (simp add: struct_inv_def gs(2))
      with gs(4) i have "C (fst (cell_of ?st i)) (snd (cell_of ?st i)) \<noteq> 0" by blast
      with g c have "g (fst (cell_of ?st i)) (snd (cell_of ?st i)) = s (fst (cell_of ?st i)) (snd (cell_of ?st i))"
        by (simp add: completion_def)
      moreover from gs(3) i have "val_of ?st i = s (r_arr ?st i) (c_arr ?st i)"
        by (simp add: val_of_def)
      ultimately show "g (r_arr ?st i) (c_arr ?st i) = val_of ?st i" by (simp add: cell_of_def)
    qed
  qed simp
  with gs(1) show ?thesis by (simp add: search_inv_def completion_def)
qed

lemma Unique_sound:
  assumes "valid_grid s" "Unique C s st = Some (Inr 1, st2)"
  shows "one_completion C s"
proof -
  let ?Sol = "completion C s"
  from search_complete [OF GettingStarted_search_inv, of C s st]
  obtain st1 where 1: "search 1 (GettingStarted C s st) = Some st1"
    "search_inv ?Sol (\<lambda>_. False) 0 st1" by auto
  from 1(2) have si1: "struct_inv st1" by (simp add: search_inv_def)
  from assms(2) 1(1) have full: "istar st1 = 81"
    by (auto simp: Unique_def split: if_splits option.splits)
  let ?P = "follows st1 81"
  have "search_inv ?Sol ?P 2 st1"
    unfolding search_inv_def
  proof (intro conjI allI impI)
    fix g assume "?Sol g"
    with 1(2) have g: "valid_grid g" "pending 0 st1 g" by (simp_all add: search_inv_def)
    from g(1) show "valid_grid g" .
    from g(2) show "?P g \<or> pending 2 st1 g"
    proof (cases rule: pending_cases)
      case last
      with full show ?thesis by simp
    next
      case (branch j)
      then have "pending 2 st1 g" by (rule pending_branch)
      then show ?thesis ..
    qed
  qed (use si1 in simp_all)
  from search_complete [OF this]
  obtain st2' where 2: "search 2 st1 = Some st2'" "search_inv ?Sol ?P 0 st2'" by auto
  from assms(2) 1(1) 2(1) full have ne: "istar st2' \<noteq> 81"
    by (auto simp: Unique_def split: if_splits)
  with 2(2) have eq: "istar st2' = Csize st2'" by (simp add: search_inv_def)
  have all: "?P g" if "?Sol g" for g
  proof -
    from 2(2) that have "?P g \<or> pending 0 st2' g" by (simp add: search_inv_def)
    moreover have "\<not> pending 0 st2' g"
    proof
      assume "pending 0 st2' g"
      then show False using ne eq by (cases rule: pending_cases) simp_all
    qed
    ultimately show ?thesis by blast
  qed
  from assms(1) have "?Sol s" by (simp add: completion_def)
  moreover have "g (fst p) (snd p) = h (fst p) (snd p)"
    if "?Sol g" "?Sol h" "p \<in> sites" for g h p
    using follows_full_unique [OF si1 full all [OF that(1)] all [OF that(2)] that(3)] .
  ultimately show ?thesis unfolding one_completion_def by blast
qed


section \<open>What Advance does\<close>

lemma Advance_on_trail:
  assumes "struct_inv st"
  shows "(\<forall>x y. count_consistent st x y = length (candidates st x y)) \<and>
    (\<forall>x y v. v \<in> set (candidates st x y) \<longleftrightarrow>
       1 \<le> v \<and> v \<le> 9 \<and> (\<forall>i \<in> {1 .. istar st}. val_of st i = v \<longrightarrow> \<not> shares (cell_of st i) (x, y))) \<and>
    (fst (Advance st) = 0 \<longleftrightarrow> istar st = 81) \<and>
    (fst (Advance st) = 2 \<longleftrightarrow>
       istar st < 81 \<and> (\<exists>p \<in> sites. \<not> Gtilde st (fst p) (snd p) \<and> count_consistent st (fst p) (snd p) = 0)) \<and>
    (fst (Advance st) \<noteq> 1 \<longrightarrow> snd (Advance st) = st) \<and>
    (fst (Advance st) = 1 \<longrightarrow>
       (\<exists>rp cp. (rp, cp) \<in> sites \<and> \<not> Gtilde st rp cp \<and> 0 < count_consistent st rp cp \<and>
          (\<forall>p \<in> sites. \<not> Gtilde st (fst p) (snd p)
              \<longrightarrow> count_consistent st rp cp \<le> count_consistent st (fst p) (snd p)) \<and>
          istar (snd (Advance st)) = istar st + 1 \<and>
          cell_of (snd (Advance st)) (istar st + 1) = (rp, cp) \<and>
          Gtilde (snd (Advance st)) = update2 (Gtilde st) rp cp True \<and>
          map (n_arr (snd (Advance st)) (istar st + 1)) [1 ..< Suc (count_consistent st rp cp)]
            = candidates st rp cp \<and>
          m_arr (snd (Advance st)) (istar st + 1) = count_consistent st rp cp \<and>
          val_of (snd (Advance st)) (istar st + 1) = last (candidates st rp cp) \<and>
          (\<forall>i \<le> istar st. cell_of (snd (Advance st)) i = cell_of st i \<and>
              m_arr (snd (Advance st)) i = m_arr st i \<and> n_arr (snd (Advance st)) i = n_arr st i)))"
proof -
  have A: "\<forall>x y. count_consistent st x y = length (candidates st x y)"
    by (simp add: count_candidates)
  have B: "\<forall>x y v. v \<in> set (candidates st x y) \<longleftrightarrow>
       1 \<le> v \<and> v \<le> 9 \<and> (\<forall>i \<in> {1 .. istar st}. val_of st i = v \<longrightarrow> \<not> shares (cell_of st i) (x, y))"
    by (simp add: set_candidates Consistent_iff)
  from assms have rest: "(fst (Advance st) = 0 \<longleftrightarrow> istar st = 81) \<and>
    (fst (Advance st) = 2 \<longleftrightarrow>
       istar st < 81 \<and> (\<exists>p \<in> sites. \<not> Gtilde st (fst p) (snd p) \<and> count_consistent st (fst p) (snd p) = 0)) \<and>
    (fst (Advance st) \<noteq> 1 \<longrightarrow> snd (Advance st) = st) \<and>
    (fst (Advance st) = 1 \<longrightarrow>
       (\<exists>rp cp. (rp, cp) \<in> sites \<and> \<not> Gtilde st rp cp \<and> 0 < count_consistent st rp cp \<and>
          (\<forall>p \<in> sites. \<not> Gtilde st (fst p) (snd p)
              \<longrightarrow> count_consistent st rp cp \<le> count_consistent st (fst p) (snd p)) \<and>
          istar (snd (Advance st)) = istar st + 1 \<and>
          cell_of (snd (Advance st)) (istar st + 1) = (rp, cp) \<and>
          Gtilde (snd (Advance st)) = update2 (Gtilde st) rp cp True \<and>
          map (n_arr (snd (Advance st)) (istar st + 1)) [1 ..< Suc (count_consistent st rp cp)]
            = candidates st rp cp \<and>
          m_arr (snd (Advance st)) (istar st + 1) = count_consistent st rp cp \<and>
          val_of (snd (Advance st)) (istar st + 1) = last (candidates st rp cp) \<and>
          (\<forall>i \<le> istar st. cell_of (snd (Advance st)) i = cell_of st i \<and>
              m_arr (snd (Advance st)) i = m_arr st i \<and> n_arr (snd (Advance st)) i = n_arr st i)))"
  proof (cases rule: Advance_cases)
    case full
    then show ?thesis by simp
  next
    case dead
    from dead(3) have "\<exists>p \<in> sites. \<not> Gtilde st (fst p) (snd p) \<and> count_consistent st (fst p) (snd p) = 0"
      by (simp add: count_candidates)
    with dead(1,2) show ?thesis by simp
  next
    case (push rp cp st')
    let ?k = "istar st"
    let ?cs = "candidates st rp cp"
    from push(6) have pos: "0 < count_consistent st rp cp" by (simp add: count_candidates)
    have nz: "\<not> (\<exists>p \<in> sites. \<not> Gtilde st (fst p) (snd p) \<and> count_consistent st (fst p) (snd p) = 0)"
    proof
      assume "\<exists>p \<in> sites. \<not> Gtilde st (fst p) (snd p) \<and> count_consistent st (fst p) (snd p) = 0"
      then obtain p where "p \<in> sites" "\<not> Gtilde st (fst p) (snd p)" "count_consistent st (fst p) (snd p) = 0"
        by blast
      with push(5) have "length ?cs \<le> 0" by (auto simp: count_candidates)
      with push(6) show False by simp
    qed
    have mn: "\<forall>p \<in> sites. \<not> Gtilde st (fst p) (snd p)
              \<longrightarrow> count_consistent st rp cp \<le> count_consistent st (fst p) (snd p)"
      using push(5) by (simp add: count_candidates)
    have cell: "cell_of st' (?k + 1) = (rp, cp)" by (simp add: cell_of_def push(9,10))
    have m: "m_arr st' (?k + 1) = count_consistent st rp cp" by (simp add: push(11) count_candidates)
    have lst: "map (n_arr st' (?k + 1)) [1 ..< Suc (count_consistent st rp cp)] = ?cs"
      unfolding count_candidates
    proof (rule nth_equalityI)
      show "length (map (n_arr st' (?k + 1)) [1 ..< Suc (length ?cs)]) = length ?cs"
        by (simp del: upt_Suc)
      fix t assume "t < length (map (n_arr st' (?k + 1)) [1 ..< Suc (length ?cs)])"
      then have t: "t < length ?cs" by (simp del: upt_Suc)
      then have "[1 ..< Suc (length ?cs)] ! t = t + 1" by (simp add: nth_upt del: upt_Suc)
      with t push(14) show "map (n_arr st' (?k + 1)) [1 ..< Suc (length ?cs)] ! t = ?cs ! t"
        by (simp del: upt_Suc)
    qed
    from push(6) have "length ?cs - 1 < length ?cs" by simp
    with push(14) have "n_arr st' (?k + 1) (length ?cs - 1 + 1) = ?cs ! (length ?cs - 1)" by blast
    with push(6) have v: "val_of st' (?k + 1) = last ?cs"
      by (simp add: val_of_def push(11) last_conv_nth)
    have old: "\<forall>i \<le> ?k. cell_of st' i = cell_of st i \<and> m_arr st' i = m_arr st i \<and> n_arr st' i = n_arr st i"
    proof (intro allI impI)
      fix i assume "i \<le> ?k"
      then have "i \<noteq> ?k + 1" by simp
      with push(13) show "cell_of st' i = cell_of st i \<and> m_arr st' i = m_arr st i \<and> n_arr st' i = n_arr st i"
        by (simp add: cell_of_def push(9,10,11))
    qed
    have "\<exists>rp cp. (rp, cp) \<in> sites \<and> \<not> Gtilde st rp cp \<and> 0 < count_consistent st rp cp \<and>
          (\<forall>p \<in> sites. \<not> Gtilde st (fst p) (snd p)
              \<longrightarrow> count_consistent st rp cp \<le> count_consistent st (fst p) (snd p)) \<and>
          istar st' = istar st + 1 \<and>
          cell_of st' (istar st + 1) = (rp, cp) \<and>
          Gtilde st' = update2 (Gtilde st) rp cp True \<and>
          map (n_arr st' (istar st + 1)) [1 ..< Suc (count_consistent st rp cp)]
            = candidates st rp cp \<and>
          m_arr st' (istar st + 1) = count_consistent st rp cp \<and>
          val_of st' (istar st + 1) = last (candidates st rp cp) \<and>
          (\<forall>i \<le> istar st. cell_of st' i = cell_of st i \<and>
              m_arr st' i = m_arr st i \<and> n_arr st' i = n_arr st i)"
      using push(3,4) pos mn push(7) cell push(12) lst m v old by blast
    with push(1) nz show ?thesis unfolding push(2) fst_conv snd_conv by simp
  qed
  from A B rest show ?thesis by blast
qed

lemma reach_struct_inv: "reach C s st0 status st \<Longrightarrow> struct_inv st"
  by (induction rule: reach.induct)
     (simp_all add: GettingStarted_props(1) Advance_struct Retreat_struct)

text \<open>
  C7, amended in its last clause.  Whenever \<^verbatim>\<open>Unique\<close> calls it, \<^verbatim>\<open>Advance\<close> counts for every
  cell of the grid that is not on the trail the digits 1..9 that \<^verbatim>\<open>Consistent\<close> accepts
  (a digit is accepted when no trail entry that shares the row, the column or the 3x3
  block of the cell holds it).  It returns 0 exactly when the trail is full, and 2
  (Retreat) exactly when the trail is not full and some free cell has no consistent
  digit; in both cases nothing is changed.  Otherwise it returns 1: it has picked a free
  cell \<open>(rp, cp)\<close> whose count is least, put it on the trail as the new last entry with
  the list of its consistent digits in increasing order, flagged it in \<^verbatim>\<open>Gtilde\<close>, and
  left the entries below as they were.  The current candidate index \<^verbatim>\<open>m[istar]\<close> is the
  length of the list, so the current digit of the new entry is the last digit of the
  list (\<^verbatim>\<open>Retreat\<close> then steps the index down), not the first.
\<close>

theorem Advance_min_count_last:
  assumes "reach C s st0 1 st"
  shows "(\<forall>x y. count_consistent st x y = length (candidates st x y)) \<and>
    (\<forall>x y v. v \<in> set (candidates st x y) \<longleftrightarrow>
       1 \<le> v \<and> v \<le> 9 \<and> (\<forall>i \<in> {1 .. istar st}. val_of st i = v \<longrightarrow> \<not> shares (cell_of st i) (x, y))) \<and>
    (fst (Advance st) = 0 \<longleftrightarrow> istar st = 81) \<and>
    (fst (Advance st) = 2 \<longleftrightarrow>
       istar st < 81 \<and> (\<exists>p \<in> sites. \<not> Gtilde st (fst p) (snd p) \<and> count_consistent st (fst p) (snd p) = 0)) \<and>
    (fst (Advance st) \<noteq> 1 \<longrightarrow> snd (Advance st) = st) \<and>
    (fst (Advance st) = 1 \<longrightarrow>
       (\<exists>rp cp. (rp, cp) \<in> sites \<and> \<not> Gtilde st rp cp \<and> 0 < count_consistent st rp cp \<and>
          (\<forall>p \<in> sites. \<not> Gtilde st (fst p) (snd p)
              \<longrightarrow> count_consistent st rp cp \<le> count_consistent st (fst p) (snd p)) \<and>
          istar (snd (Advance st)) = istar st + 1 \<and>
          cell_of (snd (Advance st)) (istar st + 1) = (rp, cp) \<and>
          Gtilde (snd (Advance st)) = update2 (Gtilde st) rp cp True \<and>
          map (n_arr (snd (Advance st)) (istar st + 1)) [1 ..< Suc (count_consistent st rp cp)]
            = candidates st rp cp \<and>
          m_arr (snd (Advance st)) (istar st + 1) = count_consistent st rp cp \<and>
          val_of (snd (Advance st)) (istar st + 1) = last (candidates st rp cp) \<and>
          (\<forall>i \<le> istar st. cell_of (snd (Advance st)) i = cell_of st i \<and>
              m_arr (snd (Advance st)) i = m_arr st i \<and> n_arr (snd (Advance st)) i = n_arr st i)))"
  by (rule Advance_on_trail [OF reach_struct_inv [OF assms]])

text \<open>
  On the trail of the empty clue set \<^verbatim>\<open>Advance\<close> picks the cell (1, 1), whose consistent
  digits are 1, ..., 9, and makes 9 its current digit.
\<close>

lemma ex_empty_Advance:
  "fst (Advance (GettingStarted ex_none ex_s st0)) = 1"
  by code_simp

theorem Advance_min_count_last_witness:
  "reach ex_none ex_s st0 1 (GettingStarted ex_none ex_s st0) \<and>
   fst (Advance (GettingStarted ex_none ex_s st0)) = 1 \<and>
   (\<exists>rp cp. (rp, cp) \<in> sites \<and>
      cell_of (snd (Advance (GettingStarted ex_none ex_s st0))) (istar (GettingStarted ex_none ex_s st0) + 1) = (rp, cp) \<and>
      m_arr (snd (Advance (GettingStarted ex_none ex_s st0))) (istar (GettingStarted ex_none ex_s st0) + 1)
        = count_consistent (GettingStarted ex_none ex_s st0) rp cp \<and>
      val_of (snd (Advance (GettingStarted ex_none ex_s st0))) (istar (GettingStarted ex_none ex_s st0) + 1)
        = last (candidates (GettingStarted ex_none ex_s st0) rp cp))"
  using Advance_min_count_last [OF reach.start [of ex_none ex_s st0]] ex_empty_Advance
    reach.start [of ex_none ex_s st0]
  by blast

theorem Advance_not_first_candidate:
  "fst (Advance (GettingStarted ex_none ex_s st0)) = 1 \<and>
   cell_of (snd (Advance (GettingStarted ex_none ex_s st0))) 1 = (1, 1) \<and>
   candidates (GettingStarted ex_none ex_s st0) 1 1 = [1, 2, 3, 4, 5, 6, 7, 8, 9] \<and>
   map (n_arr (snd (Advance (GettingStarted ex_none ex_s st0))) 1) [1, 2, 3, 4, 5, 6, 7, 8, 9]
     = [1, 2, 3, 4, 5, 6, 7, 8, 9] \<and>
   val_of (snd (Advance (GettingStarted ex_none ex_s st0))) 1 = 9 \<and>
   val_of (snd (Advance (GettingStarted ex_none ex_s st0))) 1
     \<noteq> hd (candidates (GettingStarted ex_none ex_s st0) 1 1)"
  by code_simp



section \<open>The uniqueness test and the completions of the clues\<close>

lemma valid_grid_list: "valid_grid g = valid_list g"
  unfolding valid_grid_def valid_list_def list_all_iff grid_list_set by blast

lemma ex_s_valid_list: "valid_list ex_s"
  by code_simp

lemma ex_s_valid: "valid_grid ex_s"
  using ex_s_valid_list by (simp add: valid_grid_list)

lemma Flip_twice:
  assumes "1 \<le> x0" "x0 \<le> 9" "1 \<le> y0" "y0 \<le> 9"
  shows "fst (Flip (fst (Flip C x0 y0)) x0 y0) = C"
proof (intro ext)
  fix x y
  have r: "10 - (10 - x0) = x0" "10 - (10 - y0) = y0" using assms by auto
  consider "(x, y) = (x0, y0)" | "(x, y) = (10 - x0, 10 - y0)"
    | "(x, y) \<noteq> (x0, y0)" "(x, y) \<noteq> (10 - x0, 10 - y0)" by blast
  then show "fst (Flip (fst (Flip C x0 y0)) x0 y0) x y = C x y"
  proof cases
    case 1
    with Flip_effect(1) [OF assms, of "fst (Flip C x0 y0)"] Flip_effect(1) [OF assms, of C]
    show ?thesis by simp
  next
    case 2
    with Flip_effect(2) [OF assms, of "fst (Flip C x0 y0)"] Flip_effect(2) [OF assms, of C]
    show ?thesis by simp
  next
    case 3
    with Flip_effect(3) [OF assms, of x y "fst (Flip C x0 y0)"] Flip_effect(3) [OF assms, of x y C]
    show ?thesis by simp
  qed
qed

lemma Unique_valid:
  assumes "valid_grid s"
  shows "\<exists>u st'. Unique C s st = Some (Inr u, st') \<and> (u = 0 \<or> u = 1) \<and>
           (u = 1 \<longrightarrow> one_completion C s)"
proof -
  let ?Sol = "completion C s"
  from search_complete [OF GettingStarted_search_inv, of C s st]
  obtain st1 where 1: "search 1 (GettingStarted C s st) = Some st1"
    "search_inv ?Sol (\<lambda>_. False) 0 st1" by auto
  from assms have "?Sol s" by (simp add: completion_def)
  with 1(2) have p: "pending 0 st1 s" and z: "istar st1 = 81 \<or> istar st1 = Csize st1"
    and si: "struct_inv st1"
    by (simp_all add: search_inv_def)
  from p have full: "istar st1 = 81"
  proof (cases rule: pending_cases)
    case last
    then show ?thesis by simp
  next
    case (branch j)
    with z show ?thesis by simp
  qed
  from search_terminates [OF si, of 2] obtain st2 where 2: "search 2 st1 = Some st2" by auto
  let ?u = "if istar st2 = 81 then 0 else 1 :: int"
  from 1(1) 2 full have U: "Unique C s st = Some (Inr ?u, st2)" by (simp add: Unique_def)
  have "one_completion C s" if "?u = 1"
  proof -
    from that U have "Unique C s st = Some (Inr 1, st2)" by simp
    from Unique_sound [OF assms this] show ?thesis .
  qed
  with U show ?thesis by (intro exI [of _ ?u] exI [of _ st2]) simp
qed

lemma search_0: "search 0 st = Some st"
  by (simp add: search.simps)

lemma search_1: "search 1 st = search (fst (Advance st)) (snd (Advance st))"
  by (subst search.simps) simp

lemma search_2: "search 2 st = search (fst (Retreat st)) (snd (Retreat st))"
  by (subst search.simps) simp






text \<open>
  When all sites but one are flagged and \<open>s\<close> is a valid grid, the free cell has the one
  candidate that \<open>s\<close> holds there, and \<^verbatim>\<open>Unique\<close> returns 1.
\<close>

lemma valid_grid_range: "valid_grid s \<Longrightarrow> p \<in> sites \<Longrightarrow> 1 \<le> s (fst p) (snd p) \<and> s (fst p) (snd p) \<le> 9"
  by (simp add: valid_grid_def)

lemma valid_grid_adj:
  "valid_grid s \<Longrightarrow> p \<in> sites \<Longrightarrow> q \<in> sites \<Longrightarrow> adj p q \<Longrightarrow> s (fst p) (snd p) \<noteq> s (fst q) (snd q)"
  by (simp add: valid_grid_def)

lemma row_onto:
  assumes "valid_grid s" "1 \<le> x" "x \<le> 9" "1 \<le> v" "v \<le> 9"
  shows "\<exists>y \<in> {1 .. 9}. s x y = v"
proof -
  let ?f = "\<lambda>y. s x y"
  have inj: "inj_on ?f {1 .. 9 :: nat}"
  proof (rule inj_onI)
    fix y y' assume y: "y \<in> {1 .. 9 :: nat}" "y' \<in> {1 .. 9}" "s x y = s x y'"
    show "y = y'"
    proof (rule ccontr)
      assume "y \<noteq> y'"
      with assms(2,3) y(1,2) have "(x, y) \<in> sites" "(x, y') \<in> sites" "adj (x, y) (x, y')"
        by (auto simp: sites_def adj_def)
      from valid_grid_adj [OF assms(1) this] y(3) show False by simp
    qed
  qed
  have sub: "?f ` {1 .. 9} \<subseteq> {1 .. 9 :: int}"
  proof
    fix v assume "v \<in> ?f ` {1 .. 9}"
    then obtain y where y: "y \<in> {1 .. 9}" "v = s x y" by blast
    with assms(2,3) have "(x, y) \<in> sites" by (simp add: sites_def)
    from valid_grid_range [OF assms(1) this] y(2) show "v \<in> {1 .. 9}" by simp
  qed
  from inj have "card (?f ` {1 .. 9}) = 9" by (simp add: card_image)
  with sub have "?f ` {1 .. 9} = {1 .. 9 :: int}" by (intro card_subset_eq) simp_all
  with assms(4,5) have "v \<in> ?f ` {1 .. 9}" by simp
  then show ?thesis by blast
qed

lemma Unique_one_free:
  assumes s: "valid_grid s" and p0: "p0 \<in> sites" "C (fst p0) (snd p0) = 0"
      and others: "\<forall>p \<in> sites. p \<noteq> p0 \<longrightarrow> C (fst p) (snd p) \<noteq> 0"
  shows "\<exists>st'. Unique C s st = Some (Inr 1, st')"
proof -
  define g where "g = GettingStarted C s st"
  note gs = GettingStarted_props [of C s st, folded g_def]
  have si: "struct_inv g" by (rule gs(1))
  have eq: "istar g = Csize g" by (rule gs(2))
  from si have tr: "\<forall>i \<in> {1 .. Csize g}. cell_of g i \<in> sites"
    unfolding struct_inv_def eq by blast
  from si have G: "\<forall>p \<in> sites. Gtilde g (fst p) (snd p) \<longleftrightarrow> p \<in> cell_of g ` {1 .. Csize g}"
    unfolding struct_inv_def eq by blast
  from si have inj: "inj_on (cell_of g) {1 .. Csize g}"
    unfolding struct_inv_def eq by blast
  have img: "cell_of g ` {1 .. Csize g} = sites - {p0}"
  proof (intro equalityI subsetI)
    fix p assume p: "p \<in> cell_of g ` {1 .. Csize g}"
    with tr have ps: "p \<in> sites" by blast
    with gs(4) p have "C (fst p) (snd p) \<noteq> 0" by blast
    with p0(2) have "p \<noteq> p0" by auto
    with ps show "p \<in> sites - {p0}" by simp
  next
    fix p assume "p \<in> sites - {p0}"
    then have "p \<in> sites" "p \<noteq> p0" by simp_all
    with others have "C (fst p) (snd p) \<noteq> 0" by blast
    with gs(4) \<open>p \<in> sites\<close> show "p \<in> cell_of g ` {1 .. Csize g}" by blast
  qed
  have "card (sites - {p0}) = 80"
    using p0(1) by (simp add: card_sites finite_sites)
  with img have "card (cell_of g ` {1 .. Csize g}) = 80" by simp
  with card_image [OF inj] have cs: "Csize g = 80" by simp
  with eq have ist: "istar g = 80" by simp
  have mem: "p \<in> cell_of g ` {1 .. Csize g} \<longleftrightarrow> p \<in> sites \<and> p \<noteq> p0" for p
    unfolding img by simp
  have free: "\<not> Gtilde g (fst p0) (snd p0)"
  proof
    assume "Gtilde g (fst p0) (snd p0)"
    with G p0(1) have "p0 \<in> cell_of g ` {1 .. Csize g}" by simp
    with mem [of p0] show False by simp
  qed
  have onlyfree: "p = p0" if "p \<in> sites" "\<not> Gtilde g (fst p) (snd p)" for p
  proof (rule ccontr)
    assume "p \<noteq> p0"
    with mem [of p] that(1) have "p \<in> cell_of g ` {1 .. Csize g}" by simp
    with G that(1) have "Gtilde g (fst p) (snd p)" by simp
    with that(2) show False by simp
  qed
  have vals: "val_of g i = s (r_arr g i) (c_arr g i)" if "i \<in> {1 .. Csize g}" for i
    using gs(3) that unfolding val_of_def by auto
  have fol: "follows g (istar g) s"
    unfolding follows_def eq using vals by simp
  have in_c: "s (fst p0) (snd p0) \<in> set (candidates g (fst p0) (snd p0))"
    by (rule follows_candidate [OF si s fol p0(1) free])
  have only: "v = s (fst p0) (snd p0)" if v: "v \<in> set (candidates g (fst p0) (snd p0))" for v
  proof (rule ccontr)
    assume ne: "v \<noteq> s (fst p0) (snd p0)"
    from v have rng: "1 \<le> v" "v \<le> 9" and con: "Consistent g (fst p0) (snd p0) v (istar g)"
      by (simp_all add: set_candidates)
    from con have con': "\<forall>i \<in> {1 .. istar g}. val_of g i = v \<longrightarrow> \<not> shares (cell_of g i) (fst p0, snd p0)"
      by (simp only: Consistent_iff)
    from p0(1) have x: "1 \<le> fst p0" "fst p0 \<le> 9" by (auto simp: sites_def)
    from row_onto [OF s x rng] obtain y where y: "y \<in> {1 .. 9}" "s (fst p0) y = v" by blast
    with ne have yne: "y \<noteq> snd p0" by auto
    let ?q = "(fst p0, y)"
    from y(1) x have qs: "?q \<in> sites" by (simp add: sites_def)
    from yne have "?q \<noteq> p0" by (cases p0) auto
    with qs mem [of ?q] have "?q \<in> cell_of g ` {1 .. Csize g}" by simp
    then obtain i where i': "?q = cell_of g i" "i \<in> {1 .. Csize g}" by (rule imageE)
    then have i: "i \<in> {1 .. Csize g}" "cell_of g i = ?q" by simp_all
    from vals [OF i(1)] i(2) y(2) have val: "val_of g i = v" by (simp add: cell_of_def)
    have sh: "shares (cell_of g i) (fst p0, snd p0)" by (simp add: i(2) shares_def)
    from con' i(1) val sh eq show False by simp
  qed
  from in_c only have "set (candidates g (fst p0) (snd p0)) = {s (fst p0) (snd p0)}" by blast
  then have "card (set (candidates g (fst p0) (snd p0))) = 1" by simp
  with distinct_card [OF distinct_candidates [of g "fst p0" "snd p0"]]
  have len: "length (candidates g (fst p0) (snd p0)) = 1" by simp
  from si obtain a where a: "Advance g = (1, a)" "istar a = 81" "Csize a = 80"
    "m_arr a 81 = 1"
  proof (cases rule: Advance_cases)
    case full
    with ist show ?thesis by simp
  next
    case dead
    from dead(3) obtain p where p: "p \<in> sites" "\<not> Gtilde g (fst p) (snd p)"
      "candidates g (fst p) (snd p) = []" by blast
    from onlyfree [OF p(1,2)] p(3) len show ?thesis by simp
  next
    case (push rp cp st')
    from onlyfree [OF push(3)] push(4) have "(rp, cp) = p0" by simp
    then have "rp = fst p0" "cp = snd p0" by auto
    with push(11) len ist have m: "m_arr st' 81 = 1" by simp
    from push(7) ist have i81: "istar st' = 81" by simp
    from push(8) cs have c80: "Csize st' = 80" by simp
    from that [OF push(2) i81 c80 m] show ?thesis .
  qed
  from a(2) have "Advance a = (0, a)" by (simp add: Advance_def)
  with search_1 [of g] search_1 [of a] search_0 [of a] a(1)
  have 1: "search 1 g = Some a" by simp
  define b where "b = snd (Retreat a)"
  from a(2,3,4) have "Retreat a = (2, a\<lparr>Gtilde := update2 (Gtilde a) (r_arr a (istar a)) (c_arr a (istar a)) False,
                          istar := istar a - 1\<rparr>)"
    by (cases a rule: Retreat_cases) simp_all
  then have r: "fst (Retreat a) = 2" "istar b = 80" "Csize b = 80"
    using a(2,3) by (simp_all add: b_def)
  from r(2,3) have "Retreat b = (0, b)" by (simp add: Retreat_def)
  with search_2 [of a] search_2 [of b] search_0 [of b] r(1)
  have 2: "search 2 a = Some b" by (simp add: b_def)
  from 1 2 a(2) r(2) have "Unique C s st = Some (Inr 1, b)" by (simp add: Unique_def g_def)
  then show ?thesis by blast
qed

text \<open>
  C5: let \<open>s\<close> be a valid grid (\<^verbatim>\<open>Metropolis2\<close> runs on the grid that \<^verbatim>\<open>Metropolis1\<close> has
  solved) and let the flip at a site \<open>(x, y)\<close> of the grid take clues away.  Then \<^verbatim>\<open>Unique\<close>
  returns on the flipped clue set, with 0 or 1 and never through \<^verbatim>\<open>Exit\<close>.  When it returns 1 the pass of the loop of \<^verbatim>\<open>Metropolis2\<close> keeps the flipped
  clue set and adds the change to \<open>E\<close>, and the kept clue set has exactly one completion.
  When it returns 0 the pass flips back, whatever the change of the clue count: the clue
  set and \<open>E\<close> are as before the pass.
\<close>

theorem reduction_kept_only_if_unique:
  assumes "valid_grid s" "1 \<le> x" "x \<le> 9" "1 \<le> y" "y \<le> 9" "snd (Flip C x y) < 0"
  shows "\<exists>u st'. Unique (fst (Flip C x y)) s st = Some (Inr u, st') \<and>
           (u \<noteq> 0 \<longrightarrow>
              Metropolis2_step s C E st x y U
                = Some (Inr (fst (Flip C x y), E + snd (Flip C x y), st')) \<and>
              one_completion (fst (Flip C x y)) s) \<and>
           (u = 0 \<longrightarrow> Metropolis2_step s C E st x y U = Some (Inr (C, E, st')))"
proof -
  from Unique_valid [OF assms(1), of "fst (Flip C x y)" st]
  obtain u st' where u: "Unique (fst (Flip C x y)) s st = Some (Inr u, st')" "u = 0 \<or> u = 1"
    "u = 1 \<longrightarrow> one_completion (fst (Flip C x y)) s" by blast
  obtain C1 d where f: "Flip C x y = (C1, d)" by (cases "Flip C x y")
  from Flip_twice [OF assms(2-5), of C] f have undo: "fst (Flip C1 x y) = C" by simp
  from u f assms(6) undo show ?thesis
    by (intro exI [of _ u] exI [of _ st']) (auto simp: Metropolis2_step_def)
qed

text \<open>
  The clues \<open>ex_C\<close> have two completions, \<open>ex_s\<close> and \<open>ex_s2\<close>.
\<close>

lemma ex_s2_valid_list: "valid_list ex_s2"
  by code_simp

lemma ex_s2_valid: "valid_grid ex_s2"
  using ex_s2_valid_list by (simp add: valid_grid_list)

lemma ex_s_11: "ex_s 1 1 = 1"
  by code_simp

lemma ex_s2_11: "ex_s2 1 1 = 8"
  unfolding ex_s2_def ex_s_11 by simp

lemma ex_C_11: "ex_C 1 1 = 0"
  unfolding ex_C_def ex_s_11 by simp

lemma one_completionD:
  assumes "one_completion C s" "completion C s g" "completion C s g'" "p \<in> sites"
  shows "g (fst p) (snd p) = g' (fst p) (snd p)"
proof -
  from assms(1) have "\<forall>g g'. completion C s g \<and> completion C s g' \<longrightarrow> (\<forall>p \<in> sites. g (fst p) (snd p) = g' (fst p) (snd p))"
    unfolding one_completion_def by (rule conjunct2)
  with assms(2,3,4) show ?thesis by blast
qed

lemma ex_C_two_completions: "\<not> one_completion ex_C ex_s"
proof
  assume a: "one_completion ex_C ex_s"
  have 1: "completion ex_C ex_s ex_s" using ex_s_valid by (simp add: completion_def)
  have 2: "completion ex_C ex_s ex_s2"
    unfolding completion_def
  proof (intro conjI ballI impI)
    show "valid_grid ex_s2" by (rule ex_s2_valid)
    fix p assume "ex_C (fst p) (snd p) \<noteq> 0"
    then have "ex_s (fst p) (snd p) \<noteq> 1 \<and> ex_s (fst p) (snd p) \<noteq> 8"
      unfolding ex_C_def by (simp split: if_splits)
    then show "ex_s2 (fst p) (snd p) = ex_s (fst p) (snd p)"
      unfolding ex_s2_def by simp
  qed
  have "(1, 1) \<in> sites" by (simp add: sites_def)
  from one_completionD [OF a 1 2 this] have "ex_s 1 1 = ex_s2 1 1" by simp
  with ex_s_11 ex_s2_11 show False by simp
qed

theorem reduction_kept_only_if_unique_witness:
  "valid_grid ex_s \<and> snd (Flip all_clues 5 5) < 0 \<and>
   (\<exists>st'. Unique (fst (Flip all_clues 5 5)) ex_s st0 = Some (Inr 1, st') \<and>
      Metropolis2_step ex_s all_clues 81 st0 5 5 0 = Some (Inr (fst (Flip all_clues 5 5), 80, st'))) \<and>
   one_completion (fst (Flip all_clues 5 5)) ex_s \<and>
   snd (Flip (fst (Flip ex_C 1 1)) 1 1) < 0 \<and> fst (Flip (fst (Flip ex_C 1 1)) 1 1) = ex_C \<and>
   \<not> one_completion ex_C ex_s \<and>
   (\<exists>st'. Unique ex_C ex_s st0 = Some (Inr 0, st') \<and>
      Metropolis2_step ex_s (fst (Flip ex_C 1 1)) 65 st0 1 1 0 = Some (Inr (fst (Flip ex_C 1 1), 65, st')))"
proof -
  have d: "snd (Flip all_clues 5 5) = - 1"
    by (simp add: Flip_def all_clues_def update2_def Let_def)
  have f: "fst (Flip all_clues 5 5) x y = (if x = 5 \<and> y = 5 then 0 else 1)" for x y
    by (simp add: Flip_def all_clues_def update2_def Let_def)
  have c: "(5, 5) \<in> sites" by (simp add: sites_def)
  have z: "fst (Flip all_clues 5 5) (fst (5, 5)) (snd (5, 5)) = 0" by (simp add: f)
  have o: "\<forall>p \<in> sites. p \<noteq> (5, 5) \<longrightarrow> fst (Flip all_clues 5 5) (fst p) (snd p) \<noteq> 0"
    by (simp add: f prod_eq_iff)
  from Unique_one_free [OF ex_s_valid c z o, of st0]
  obtain st1 where 1: "Unique (fst (Flip all_clues 5 5)) ex_s st0 = Some (Inr 1, st1)"
    by blast
  from reduction_kept_only_if_unique [OF ex_s_valid, of 5 5 all_clues st0 81 0] d 1
  have "Metropolis2_step ex_s all_clues 81 st0 5 5 0 = Some (Inr (fst (Flip all_clues 5 5), 80, st1))"
    and "one_completion (fst (Flip all_clues 5 5)) ex_s"
    by simp_all
  with 1 d ex_s_valid have kept: "valid_grid ex_s \<and> snd (Flip all_clues 5 5) < 0 \<and>
   (\<exists>st'. Unique (fst (Flip all_clues 5 5)) ex_s st0 = Some (Inr 1, st') \<and>
      Metropolis2_step ex_s all_clues 81 st0 5 5 0 = Some (Inr (fst (Flip all_clues 5 5), 80, st'))) \<and>
   one_completion (fst (Flip all_clues 5 5)) ex_s" by auto
  let ?C0 = "fst (Flip ex_C 1 1)"
  have b: "fst (Flip ?C0 1 1) = ex_C" by (rule Flip_twice) simp_all
  have "?C0 1 1 = 1" using Flip_effect(1) [of 1 1 ex_C] ex_C_11 by simp
  then have "snd (Flip ?C0 1 1) = - 2" unfolding Flip_def Let_def update2_def by simp
  then have neg: "snd (Flip ?C0 1 1) < 0" by simp
  from reduction_kept_only_if_unique [OF ex_s_valid _ _ _ _ neg, of st0 65 0]
  obtain u st' where u: "Unique (fst (Flip ?C0 1 1)) ex_s st0 = Some (Inr u, st')"
    "u \<noteq> 0 \<longrightarrow> one_completion (fst (Flip ?C0 1 1)) ex_s"
    "u = 0 \<longrightarrow> Metropolis2_step ex_s ?C0 65 st0 1 1 0 = Some (Inr (?C0, 65, st'))"
    by fastforce
  from u(2) ex_C_two_completions have u0: "u = 0" unfolding b by blast
  with u(1) have "Unique ex_C ex_s st0 = Some (Inr 0, st')" unfolding b by simp
  moreover from u(3) u0 have "Metropolis2_step ex_s ?C0 65 st0 1 1 0 = Some (Inr (?C0, 65, st'))" by simp
  ultimately have undone: "snd (Flip ?C0 1 1) < 0 \<and> fst (Flip ?C0 1 1) = ex_C \<and>
   \<not> one_completion ex_C ex_s \<and>
   (\<exists>st'. Unique ex_C ex_s st0 = Some (Inr 0, st') \<and>
      Metropolis2_step ex_s ?C0 65 st0 1 1 0 = Some (Inr (?C0, 65, st')))"
    using neg b ex_C_two_completions by blast
  from kept undone show ?thesis by blast
qed


end
